theory Spec2Isabelle
  imports Complex_Main "HOL-Library.Multiset"
begin

section \<open>Hopscotch hash map: the code of hash\_map\_review.h\<close>

text \<open>
  Conventions of the embedding.
  \<^item> \<open>size_t\<close> values (indices, lengths, hash values, the pair count) are natural numbers.
    A \<open>std::vector\<close> has fewer than \<open>2^64\<close> elements, so no index addition of the source
    wraps; the one decrement of the source (of the pair count, in \<open>Erase\<close>) is written
    with its wrap.
  \<^item> An iterator into a vector is the index it points to; \<open>end()\<close> is the length.
  \<^item> A data member \<open>name_\<close> of the source is the record field \<open>name\<close>.
  \<^item> \<open>KeyType()\<close> and \<open>ValueType()\<close> are \<open>default\<close> of the type class of that name.
  \<^item> \<open>LoadFactor\<close> is a \<open>long double\<close> quotient in the source and the exact rational
    quotient here. The source compares it with \<open>0.5\<close> and with the \<open>double\<close> nearest
    to \<open>0.1\<close>; for the odd array lengths \<open>32 * 2^k + 31\<close> that a map can have the
    quotient is never \<open>1/10\<close>, and below \<open>10^16\<close> slots both comparisons agree with the
    exact ones.
\<close>

definition NEXT :: nat where
  "NEXT = 32"

definition INITIAL_SIZE :: nat where
  "INITIAL_SIZE = 32"

definition MIN_LOAD_FACTOR :: rat where
  "MIN_LOAD_FACTOR = 1 / 10"

definition MAX_LOAD_FACTOR :: rat where
  "MAX_LOAD_FACTOR = 1 / 2"

instantiation nat :: default
begin
definition default_nat :: nat where
  "default_nat = 0"
instance ..
end

subsection \<open>class Bucket\<close>

record ('k, 'v) Bucket =
  pair :: "'k \<times> 'v"
  is_occupied :: bool

text \<open>\<open>Bucket() = default\<close>: a default-constructed pair, not occupied.\<close>

definition Bucket_default :: "('k::default, 'v::default) Bucket" where
  "Bucket_default = \<lparr>pair = (default, default), is_occupied = False\<rparr>"

text \<open>\<open>explicit Bucket(const StorageType &pair)\<close>.\<close>

definition Bucket_of :: "'k \<times> 'v \<Rightarrow> ('k, 'v) Bucket" where
  "Bucket_of p = \<lparr>pair = p, is_occupied = True\<rparr>"

text \<open>\<open>operator=\<close>: the pair is copied only from an occupied bucket, the flag always.\<close>

definition Bucket_assign :: "('k, 'v) Bucket \<Rightarrow> ('k, 'v) Bucket \<Rightarrow> ('k, 'v) Bucket" where
  "Bucket_assign this other =
     \<lparr>pair = (if is_occupied other then pair other else pair this),
      is_occupied = is_occupied other\<rparr>"

text \<open>The copy constructor: \<open>operator=\<close> on a default-initialised bucket.\<close>

definition Bucket_copy :: "('k::default, 'v::default) Bucket \<Rightarrow> ('k, 'v) Bucket" where
  "Bucket_copy other = Bucket_assign Bucket_default other"

definition IsOccupied :: "('k, 'v) Bucket \<Rightarrow> bool" where
  "IsOccupied this = is_occupied this"

definition HasKey :: "('k, 'v) Bucket \<Rightarrow> 'k \<Rightarrow> bool" where
  "HasKey this other_key = (IsOccupied this \<and> fst (pair this) = other_key)"

definition Bucket_Set :: "('k, 'v) Bucket \<Rightarrow> 'k \<times> 'v \<Rightarrow> ('k, 'v) Bucket" where
  "Bucket_Set this new_pair = Bucket_assign this (Bucket_of (fst new_pair, snd new_pair))"

definition Bucket_Erase :: "('k, 'v) Bucket \<Rightarrow> ('k, 'v) Bucket" where
  "Bucket_Erase this = this\<lparr>is_occupied := False\<rparr>"

definition GetRef :: "('k, 'v) Bucket \<Rightarrow> 'k \<times> 'v" where
  "GetRef this = pair this"

text \<open>
  \<open>std::swap\<close> on two buckets. \<open>Bucket\<close> declares its copy operations, so it has no move
  operations and the swap is a copy construction followed by two copy assignments.
\<close>

definition Bucket_swap ::
  "('k::default, 'v::default) Bucket \<Rightarrow> ('k, 'v) Bucket \<Rightarrow> ('k, 'v) Bucket \<times> ('k, 'v) Bucket" where
  "Bucket_swap a b =
     (let tmp = Bucket_copy a;
          a' = Bucket_assign a b;
          b' = Bucket_assign b tmp
      in (a', b'))"

subsection \<open>class BucketArray\<close>

record ('k, 'v) BucketArray =
  array :: "('k, 'v) Bucket list"
  pairs_count :: nat
  hash_func :: "'k \<Rightarrow> nat"

definition BucketArray_new :: "nat \<Rightarrow> ('k \<Rightarrow> nat) \<Rightarrow> ('k::default, 'v::default) BucketArray" where
  "BucketArray_new sz hash =
     \<lparr>array = replicate (sz + NEXT - 1) Bucket_default, pairs_count = 0, hash_func = hash\<rparr>"

text \<open>
  \<open>BucketArray::operator=\<close> copies the vector and the count and keeps the hash function.
  The vector copy is modelled as a copy construction of every element. (Where the
  library assigns into existing storage instead, an unoccupied bucket keeps another stale
  pair; the flag and the pairs of occupied buckets are the same.)
\<close>

definition BucketArray_assign ::
  "('k::default, 'v::default) BucketArray \<Rightarrow> ('k, 'v) BucketArray \<Rightarrow> ('k, 'v) BucketArray" where
  "BucketArray_assign this other =
     this\<lparr>array := map Bucket_copy (array other), pairs_count := pairs_count other\<rparr>"

definition End :: "('k, 'v) BucketArray \<Rightarrow> nat" where
  "End this = length (array this)"

definition ArraySize :: "('k, 'v) BucketArray \<Rightarrow> nat" where
  "ArraySize this = length (array this)"

definition PairsCount :: "('k, 'v) BucketArray \<Rightarrow> nat" where
  "PairsCount this = pairs_count this"

function FirstOccupiedBucket :: "('k, 'v) BucketArray \<Rightarrow> nat \<Rightarrow> nat" where
  "FirstOccupiedBucket this it =
     (if it < End this
      then (if IsOccupied (array this ! it) then it else FirstOccupiedBucket this (it + 1))
      else End this)"
  by pat_completeness auto
termination
  by (relation "measure (\<lambda>(this, it). End this - it)") auto

declare FirstOccupiedBucket.simps [simp del]

definition GetIndex :: "('k, 'v) BucketArray \<Rightarrow> 'k \<Rightarrow> nat" where
  "GetIndex this key = (let len = length (array this) - NEXT + 1 in hash_func this key mod len)"

definition LoadFactor :: "('k, 'v) BucketArray \<Rightarrow> rat" where
  "LoadFactor this = of_nat (pairs_count this) / of_nat (length (array this))"

text \<open>The scan of \<open>Find\<close>: \<open>for (i = arr_index; i < arr_index + NEXT; ++i)\<close>.\<close>

function Find_loop :: "('k, 'v) BucketArray \<Rightarrow> 'k \<Rightarrow> nat \<Rightarrow> nat \<Rightarrow> nat" where
  "Find_loop this key i hi =
     (if i < hi
      then (if HasKey (array this ! i) key then i else Find_loop this key (i + 1) hi)
      else End this)"
  by pat_completeness auto
termination
  by (relation "measure (\<lambda>(this, key, i, hi). hi - i)") auto

declare Find_loop.simps [simp del]

definition Find :: "('k, 'v) BucketArray \<Rightarrow> 'k \<Rightarrow> nat" where
  "Find this key = (let arr_index = GetIndex this key in Find_loop this key arr_index (arr_index + NEXT))"

text \<open>
  The same scan with the vector access checked: \<open>None\<close> stands for an access
  \<open>array_[i]\<close> outside the vector, which the source leaves undefined.
\<close>

function Find_loop_checked :: "('k, 'v) BucketArray \<Rightarrow> 'k \<Rightarrow> nat \<Rightarrow> nat \<Rightarrow> nat option" where
  "Find_loop_checked this key i hi =
     (if i < hi
      then (if i < length (array this)
            then (if HasKey (array this ! i) key then Some i
                  else Find_loop_checked this key (i + 1) hi)
            else None)
      else Some (End this))"
  by pat_completeness auto
termination
  by (relation "measure (\<lambda>(this, key, i, hi). hi - i)") auto

declare Find_loop_checked.simps [simp del]

definition Find_checked :: "('k, 'v) BucketArray \<Rightarrow> 'k \<Rightarrow> nat option" where
  "Find_checked this key =
     (let arr_index = GetIndex this key
      in Find_loop_checked this key arr_index (arr_index + NEXT))"

text \<open>The decrement of a \<open>size_t\<close>, which wraps at zero.\<close>

definition size_t_dec :: "nat \<Rightarrow> nat" where
  "size_t_dec n = (if n = 0 then 2 ^ 64 - 1 else n - 1)"

definition Erase :: "('k, 'v) BucketArray \<Rightarrow> 'k \<Rightarrow> bool \<times> ('k, 'v) BucketArray" where
  "Erase this key =
     (let it = Find this key
      in if it \<noteq> End this
         then (True, this\<lparr>array := (array this)[it := Bucket_Erase (array this ! it)],
                          pairs_count := size_t_dec (pairs_count this)\<rparr>)
         else (False, this))"

subsection \<open>BucketArray::Insert\<close>

text \<open>
  The first loop of \<open>Insert\<close>:
  \<open>for (; empty_bucket < array_.size(); ++empty_bucket) if (!array_[empty_bucket].IsOccupied()) break;\<close>
  The result is the value of \<open>empty_bucket\<close> when the loop is left.
\<close>

function scan_empty :: "('k, 'v) BucketArray \<Rightarrow> nat \<Rightarrow> nat" where
  "scan_empty this empty_bucket =
     (if empty_bucket < length (array this)
      then (if \<not> IsOccupied (array this ! empty_bucket) then empty_bucket
            else scan_empty this (empty_bucket + 1))
      else empty_bucket)"
  by pat_completeness auto
termination
  by (relation "measure (\<lambda>(this, e). length (array this) - e)") auto

declare scan_empty.simps [simp del]

text \<open>\<open>std::swap(array_[i], array_[j])\<close>.\<close>

definition swap_buckets ::
  "('k::default, 'v::default) BucketArray \<Rightarrow> nat \<Rightarrow> nat \<Rightarrow> ('k, 'v) BucketArray" where
  "swap_buckets this i j =
     (case Bucket_swap (array this ! i) (array this ! j) of
        (a', b') \<Rightarrow> this\<lparr>array := (array this)[i := a', j := b']\<rparr>)"

text \<open>
  The inner loop of the displacement,
  \<open>for (pot_bucket = empty_bucket - NEXT + 1; pot_bucket < empty_bucket; ++pot_bucket)\<close>,
  from the current \<open>pot_bucket\<close> on. Its state is the array, \<open>empty_bucket\<close> and
  \<open>swapped\<close>. The body has no \<open>break\<close>: after a swap \<open>empty_bucket\<close> is \<open>pot_bucket\<close>
  and the loop condition fails at the next test.

  The last component is a log that the source does not have: for every execution of
  \<open>array_[pot_bucket].GetRef().first\<close> it records the index read and the occupancy flag
  of that bucket at that moment. Nothing reads it.
\<close>

type_synonym read_log = "(nat \<times> bool) list"

function for_pot_bucket ::
  "('k::default, 'v::default) BucketArray \<Rightarrow> nat \<Rightarrow> bool \<Rightarrow> read_log \<Rightarrow> nat
     \<Rightarrow> ('k, 'v) BucketArray \<times> nat \<times> bool \<times> read_log" where
  "for_pot_bucket this empty_bucket swapped reads pot_bucket =
     (if pot_bucket < empty_bucket
      then (let reads' = reads @ [(pot_bucket, is_occupied (array this ! pot_bucket))];
                ideal_index = GetIndex this (fst (GetRef (array this ! pot_bucket)))
            in if empty_bucket < ideal_index + NEXT
               then for_pot_bucket (swap_buckets this pot_bucket empty_bucket)
                      pot_bucket True reads' (pot_bucket + 1)
               else for_pot_bucket this empty_bucket swapped reads' (pot_bucket + 1))
      else (this, empty_bucket, swapped, reads))"
  by pat_completeness auto
termination
  by (relation "measure (\<lambda>(this, e, swapped, reads, pot). e - pot)") auto

declare for_pot_bucket.simps [simp del]

lemma for_pot_bucket_le:
  "for_pot_bucket this e sw reads pot = (this', e', sw', reads') \<Longrightarrow>
   e' \<le> e \<and> (sw' \<and> \<not> sw \<longrightarrow> e' < e)"
proof (induction this e sw reads pot arbitrary: this' e' sw' reads' rule: for_pot_bucket.induct)
  case (1 this e sw reads pot)
  show ?case
  proof (cases "pot < e")
    case False
    with "1.prems" show ?thesis by (simp add: for_pot_bucket.simps[of this e sw reads pot])
  next
    case pe: True
    let ?reads = "reads @ [(pot, is_occupied (array this ! pot))]"
    show ?thesis
    proof (cases "e < GetIndex this (fst (GetRef (array this ! pot))) + NEXT")
      case True
      with pe "1.prems"
      have "for_pot_bucket (swap_buckets this pot e) pot True ?reads (pot + 1) = (this', e', sw', reads')"
        by (simp add: for_pot_bucket.simps[of this e sw reads pot] Let_def)
      from "1.IH"(1)[OF pe refl refl True this] pe show ?thesis by simp
    next
      case False
      with pe "1.prems"
      have "for_pot_bucket this e sw ?reads (pot + 1) = (this', e', sw', reads')"
        by (simp add: for_pot_bucket.simps[of this e sw reads pot] Let_def)
      from "1.IH"(2)[OF pe refl refl False this] show ?thesis .
    qed
  qed
qed

text \<open>
  The displacement loop \<open>while (arr_index + NEXT <= empty_bucket)\<close>, with the
  \<open>break\<close> on \<open>!swapped\<close>.
\<close>

function while_displace ::
  "('k::default, 'v::default) BucketArray \<Rightarrow> nat \<Rightarrow> nat \<Rightarrow> bool \<Rightarrow> read_log
     \<Rightarrow> ('k, 'v) BucketArray \<times> nat \<times> bool \<times> read_log" where
  "while_displace this arr_index empty_bucket swapped reads =
     (if arr_index + NEXT \<le> empty_bucket
      then (case for_pot_bucket this empty_bucket False reads (empty_bucket - NEXT + 1) of
              (this', empty_bucket', swapped', reads') \<Rightarrow>
                if \<not> swapped' then (this', empty_bucket', swapped', reads')
                else while_displace this' arr_index empty_bucket' swapped' reads')
      else (this, empty_bucket, swapped, reads))"
  by pat_completeness auto
termination
proof (relation "measure (\<lambda>(this, arr_index, e, swapped, reads). e)", goal_cases)
  case 1
  show ?case by simp
next
  case (2 this arr_index e swapped reads x1 x2 y1 y2 z1 z2)
  then have "for_pot_bucket this e False reads (e - NEXT + 1) = (x1, y1, True, z2)"
    by auto
  from for_pot_bucket_le[OF this] 2 show ?case by auto
qed

declare while_displace.simps [simp del]

text \<open>
  What \<open>Insert\<close> returns as its \<open>PairType &\<close>, and what the map hands out as a reference:
  the local \<open>fake_pair\<close>, a bucket of the array, or a bucket of the overflow vector.
\<close>

datatype pair_ref = FakePair | InArray nat | InList nat

definition Insert_logged ::
  "('k::default, 'v::default) BucketArray \<Rightarrow> 'k \<times> 'v
     \<Rightarrow> (bool \<times> pair_ref) \<times> ('k, 'v) BucketArray \<times> read_log" where
  "Insert_logged this p =
     (let result = (False, FakePair);
          arr_index = GetIndex this (fst p);
          empty_bucket = scan_empty this arr_index
      in if empty_bucket = length (array this) then (result, this, [])
         else (case while_displace this arr_index empty_bucket True [] of
                 (this', empty_bucket', swapped, reads) \<Rightarrow>
                   if swapped
                   then ((True, InArray empty_bucket'),
                         this'\<lparr>array := (array this')[empty_bucket' :=
                                            Bucket_Set (array this' ! empty_bucket') p],
                                pairs_count := pairs_count this' + 1\<rparr>,
                         reads)
                   else (result, this', reads)))"

definition Insert ::
  "('k::default, 'v::default) BucketArray \<Rightarrow> 'k \<times> 'v \<Rightarrow> (bool \<times> pair_ref) \<times> ('k, 'v) BucketArray" where
  "Insert this p = (case Insert_logged this p of (result, this', reads) \<Rightarrow> (result, this'))"

subsection \<open>class HashMap\<close>

text \<open>
  \<open>list_\<close> is a vector of buckets that are all occupied (they are only ever built by
  \<open>emplace_back\<close> from a pair). On occupied buckets the copy operations of \<open>Bucket\<close> copy
  everything, so \<open>emplace_back\<close> and \<open>erase\<close> on \<open>list_\<close> are the list operations.
\<close>

record ('k, 'v) HashMap =
  map_hash_func :: "'k \<Rightarrow> nat"
  b_array :: "('k, 'v) BucketArray"
  list :: "('k, 'v) Bucket list"

definition HashMap_new :: "('k \<Rightarrow> nat) \<Rightarrow> ('k::default, 'v::default) HashMap" where
  "HashMap_new hash =
     \<lparr>map_hash_func = hash, b_array = BucketArray_new INITIAL_SIZE hash, list = []\<rparr>"

definition HashMap_size :: "('k, 'v) HashMap \<Rightarrow> nat" where
  "HashMap_size this = PairsCount (b_array this) + length (list this)"

definition HashMap_empty :: "('k, 'v) HashMap \<Rightarrow> bool" where
  "HashMap_empty this = (HashMap_size this = 0)"

subsubsection \<open>RawIterator\<close>

text \<open>
  The four data members of \<open>RawIterator\<close> as positions. A position never lies beyond its
  end, and the tests \<open>b_array_iter_ != b_array_end_\<close> of the loops are written \<open><\<close>.
\<close>

record RawIterator =
  b_array_iter :: nat
  b_array_end :: nat
  list_iter :: nat
  list_end :: nat

definition HashMap_begin :: "('k, 'v) HashMap \<Rightarrow> RawIterator" where
  "HashMap_begin this =
     \<lparr>b_array_iter = FirstOccupiedBucket (b_array this) 0, b_array_end = End (b_array this),
      list_iter = 0, list_end = length (list this)\<rparr>"

definition HashMap_end :: "('k, 'v) HashMap \<Rightarrow> RawIterator" where
  "HashMap_end this =
     \<lparr>b_array_iter = End (b_array this), b_array_end = End (b_array this),
      list_iter = length (list this), list_end = length (list this)\<rparr>"

text \<open>\<open>operator==\<close> compares the two positions only.\<close>

definition iter_eq :: "RawIterator \<Rightarrow> RawIterator \<Rightarrow> bool" where
  "iter_eq first second =
     (b_array_iter first = b_array_iter second \<and> list_iter first = list_iter second)"

text \<open>The loop of \<open>operator++\<close> that moves to the next occupied bucket or to the end.\<close>

function iter_incr_loop :: "('k, 'v) HashMap \<Rightarrow> RawIterator \<Rightarrow> RawIterator" where
  "iter_incr_loop this it =
     (if b_array_iter it < b_array_end it
      then (let it' = it\<lparr>b_array_iter := b_array_iter it + 1\<rparr>
            in if b_array_iter it' \<noteq> b_array_end it'
                  \<and> IsOccupied (array (b_array this) ! b_array_iter it')
               then it' else iter_incr_loop this it')
      else it)"
  by pat_completeness auto
termination
  by (relation "measure (\<lambda>(this, it). b_array_end it - b_array_iter it)") auto

declare iter_incr_loop.simps [simp del]

definition iter_incr :: "('k, 'v) HashMap \<Rightarrow> RawIterator \<Rightarrow> RawIterator" where
  "iter_incr this it =
     (if b_array_iter it < b_array_end it then iter_incr_loop this it
      else it\<lparr>list_iter := list_iter it + 1\<rparr>)"

text \<open>\<open>operator*\<close> yields a reference; \<open>ref_get\<close> reads the pair behind a reference.\<close>

definition iter_deref :: "RawIterator \<Rightarrow> pair_ref" where
  "iter_deref it =
     (if b_array_iter it \<noteq> b_array_end it then InArray (b_array_iter it)
      else InList (list_iter it))"

definition ref_get :: "('k::default, 'v::default) HashMap \<Rightarrow> pair_ref \<Rightarrow> 'k \<times> 'v" where
  "ref_get this r =
     (case r of
        InArray i \<Rightarrow> GetRef (array (b_array this) ! i)
      | InList j \<Rightarrow> GetRef (list this ! j)
      | FakePair \<Rightarrow> (default, default))"

text \<open>An assignment to \<open>.second\<close> through a reference.\<close>

definition set_second :: "('k, 'v) Bucket \<Rightarrow> 'v \<Rightarrow> ('k, 'v) Bucket" where
  "set_second b v = b\<lparr>pair := (fst (pair b), v)\<rparr>"

definition ref_assign_second :: "('k, 'v) HashMap \<Rightarrow> pair_ref \<Rightarrow> 'v \<Rightarrow> ('k, 'v) HashMap" where
  "ref_assign_second this r v =
     (case r of
        InArray i \<Rightarrow>
          this\<lparr>b_array := (b_array this)
            \<lparr>array := (array (b_array this))[i := set_second (array (b_array this) ! i) v]\<rparr>\<rparr>
      | InList j \<Rightarrow> this\<lparr>list := (list this)[j := set_second (list this ! j) v]\<rparr>
      | FakePair \<Rightarrow> this)"

subsubsection \<open>find, at\<close>

function list_find_loop :: "('k, 'v) Bucket list \<Rightarrow> 'k \<Rightarrow> nat \<Rightarrow> nat" where
  "list_find_loop l key iter =
     (if iter < length l
      then (if fst (GetRef (l ! iter)) = key then iter else list_find_loop l key (iter + 1))
      else length l)"
  by pat_completeness auto
termination
  by (relation "measure (\<lambda>(l, key, iter). length l - iter)") auto

declare list_find_loop.simps [simp del]

definition HashMap_find :: "('k, 'v) HashMap \<Rightarrow> 'k \<Rightarrow> RawIterator" where
  "HashMap_find this key =
     (let it = Find (b_array this) key
      in if it \<noteq> End (b_array this)
         then \<lparr>b_array_iter = it, b_array_end = End (b_array this),
               list_iter = 0, list_end = length (list this)\<rparr>
         else \<lparr>b_array_iter = End (b_array this), b_array_end = End (b_array this),
               list_iter = list_find_loop (list this) key 0, list_end = length (list this)\<rparr>)"

datatype error = out_of_range string

definition HashMap_at :: "('k::default, 'v::default) HashMap \<Rightarrow> 'k \<Rightarrow> error + 'v" where
  "HashMap_at this key =
     (let it = HashMap_find this key
      in if iter_eq it (HashMap_end this) then Inl (out_of_range ''Key was not found'')
         else Inr (snd (ref_get this (iter_deref it))))"

subsubsection \<open>Reconstruct, ForceInsert\<close>

text \<open>
  \<open>for (const auto &bucket : *this) body\<close>, from the iterator \<open>it\<close> on. The body of the
  one such loop in the source does not change the map it iterates.
\<close>

lemma iter_incr_loop_bounds:
  "b_array_iter it < b_array_end it \<Longrightarrow>
   b_array_iter it < b_array_iter (iter_incr_loop this it) \<and>
   b_array_iter (iter_incr_loop this it) \<le> b_array_end it \<and>
   b_array_end (iter_incr_loop this it) = b_array_end it \<and>
   list_iter (iter_incr_loop this it) = list_iter it \<and>
   list_end (iter_incr_loop this it) = list_end it"
proof (induction this it rule: iter_incr_loop.induct)
  case (1 this it)
  let ?it' = "it\<lparr>b_array_iter := b_array_iter it + 1\<rparr>"
  show ?case
  proof (cases "b_array_iter ?it' \<noteq> b_array_end ?it' \<and>
                IsOccupied (array (b_array this) ! b_array_iter ?it')")
    case True
    with "1.prems" show ?thesis
      by (simp add: iter_incr_loop.simps[of this it] Let_def)
  next
    case False
    have eq: "iter_incr_loop this it = iter_incr_loop this ?it'"
      using "1.prems" False by (subst iter_incr_loop.simps) (auto simp: Let_def)
    show ?thesis
    proof (cases "b_array_iter ?it' < b_array_end ?it'")
      case True
      from "1.IH"[OF "1.prems" refl False True] show ?thesis
        unfolding eq by simp
    next
      case False
      then have "iter_incr_loop this ?it' = ?it'"
        by (subst iter_incr_loop.simps) simp
      with "1.prems" False show ?thesis unfolding eq by simp
    qed
  qed
qed

function range_for ::
  "('k, 'v) HashMap \<Rightarrow> ('s \<Rightarrow> 'k \<times> 'v \<Rightarrow> 's) \<Rightarrow> 's \<Rightarrow> RawIterator \<Rightarrow> 's" where
  "range_for this body s it =
     (if b_array_iter it < b_array_end it \<or> list_iter it < list_end it
      then range_for this body
             (body s (if b_array_iter it \<noteq> b_array_end it
                      then GetRef (array (b_array this) ! b_array_iter it)
                      else GetRef (list this ! list_iter it)))
             (iter_incr this it)
      else s)"
  by pat_completeness auto
termination
proof (relation "measure (\<lambda>(this, body, s, it).
          (b_array_end it - b_array_iter it) + (list_end it - list_iter it))", goal_cases)
  case 1
  show ?case by simp
next
  case (2 this body s it)
  show ?case
  proof (cases "b_array_iter it < b_array_end it")
    case True
    from iter_incr_loop_bounds[OF True, of this] True
    have "b_array_end (iter_incr this it) - b_array_iter (iter_incr this it)
            < b_array_end it - b_array_iter it"
      and "list_end (iter_incr this it) - list_iter (iter_incr this it)
            = list_end it - list_iter it"
      by (auto simp: iter_incr_def)
    then show ?thesis by simp
  next
    case False
    with 2 show ?thesis by (auto simp: iter_incr_def)
  qed
qed

declare range_for.simps [simp del]

definition Reconstruct_body ::
  "('k::default, 'v::default) BucketArray \<times> ('k, 'v) Bucket list \<Rightarrow> 'k \<times> 'v
     \<Rightarrow> ('k, 'v) BucketArray \<times> ('k, 'v) Bucket list" where
  "Reconstruct_body s bucket =
     (case s of (tmp_map, tmp_list) \<Rightarrow>
        (case Insert tmp_map bucket of
           (result, tmp_map') \<Rightarrow>
             if \<not> fst result then (tmp_map', tmp_list @ [Bucket_of bucket])
             else (tmp_map', tmp_list)))"

definition Reconstruct ::
  "('k::default, 'v::default) HashMap \<Rightarrow> bool \<Rightarrow> bool \<Rightarrow> ('k, 'v) HashMap" where
  "Reconstruct this change_size clear =
     (let new_size = ArraySize (b_array this) - NEXT + 1;
          new_size = (if change_size
                      then (if LoadFactor (b_array this) < MIN_LOAD_FACTOR
                            then new_size div 2 else new_size * 2)
                      else new_size);
          new_size = max new_size INITIAL_SIZE;
          tmp_map = BucketArray_new new_size (map_hash_func this);
          tmp_list = [];
          (tmp_map, tmp_list) =
             (if \<not> clear
              then range_for this Reconstruct_body (tmp_map, tmp_list) (HashMap_begin this)
              else (tmp_map, tmp_list))
      in this\<lparr>b_array := BucketArray_assign (b_array this) tmp_map, list := tmp_list\<rparr>)"

definition ForceInsert ::
  "('k::default, 'v::default) HashMap \<Rightarrow> 'k \<times> 'v \<Rightarrow> pair_ref \<times> ('k, 'v) HashMap" where
  "ForceInsert this p =
     (let load_factor = LoadFactor (b_array this);
          this = (if load_factor > MAX_LOAD_FACTOR \<or> load_factor < MIN_LOAD_FACTOR
                  then Reconstruct this True False else this)
      in (case Insert (b_array this) p of
            ((success, ref), b') \<Rightarrow>
              if \<not> success
              then (InList (length (list this)),
                    this\<lparr>b_array := b', list := list this @ [Bucket_of p]\<rparr>)
              else (ref, this\<lparr>b_array := b'\<rparr>)))"

subsubsection \<open>insert, erase, operator[], clear\<close>

definition HashMap_insert ::
  "('k::default, 'v::default) HashMap \<Rightarrow> 'k \<times> 'v \<Rightarrow> ('k, 'v) HashMap" where
  "HashMap_insert this p =
     (if iter_eq (HashMap_find this (fst p)) (HashMap_end this)
      then snd (ForceInsert this p) else this)"

function list_erase_loop :: "('k, 'v) Bucket list \<Rightarrow> 'k \<Rightarrow> nat \<Rightarrow> ('k, 'v) Bucket list" where
  "list_erase_loop l key it =
     (if it < length l
      then (if fst (GetRef (l ! it)) = key then take it l @ drop (it + 1) l
            else list_erase_loop l key (it + 1))
      else l)"
  by pat_completeness auto
termination
  by (relation "measure (\<lambda>(l, key, it). length l - it)") auto

declare list_erase_loop.simps [simp del]

definition HashMap_erase :: "('k, 'v) HashMap \<Rightarrow> 'k \<Rightarrow> ('k, 'v) HashMap" where
  "HashMap_erase this key =
     (case Erase (b_array this) key of
        (erased, b') \<Rightarrow>
          if \<not> erased then this\<lparr>b_array := b', list := list_erase_loop (list this) key 0\<rparr>
          else this\<lparr>b_array := b'\<rparr>)"

text \<open>\<open>operator[]\<close>: the reference to the pair whose \<open>.second\<close> is returned, and the map.\<close>

definition HashMap_index ::
  "('k::default, 'v::default) HashMap \<Rightarrow> 'k \<Rightarrow> pair_ref \<times> ('k, 'v) HashMap" where
  "HashMap_index this key =
     (let it = HashMap_find this key
      in if iter_eq it (HashMap_end this)
         then (let new_pair = (key, default) in ForceInsert this new_pair)
         else (iter_deref it, this))"

text \<open>\<open>map[key] = v\<close>.\<close>

definition HashMap_index_assign ::
  "('k::default, 'v::default) HashMap \<Rightarrow> 'k \<Rightarrow> 'v \<Rightarrow> ('k, 'v) HashMap" where
  "HashMap_index_assign this key v =
     (case HashMap_index this key of (r, this') \<Rightarrow> ref_assign_second this' r v)"

definition HashMap_clear :: "('k::default, 'v::default) HashMap \<Rightarrow> ('k, 'v) HashMap" where
  "HashMap_clear this = Reconstruct this False True"

text \<open>The states of a map: a fresh one, and what the public mutating operations make of it.\<close>

inductive reachable :: "('k::default, 'v::default) HashMap \<Rightarrow> bool" where
  r_new: "reachable (HashMap_new hash)"
| r_insert: "reachable m \<Longrightarrow> reachable (HashMap_insert m p)"
| r_erase: "reachable m \<Longrightarrow> reachable (HashMap_erase m key)"
| r_index: "reachable m \<Longrightarrow> reachable (snd (HashMap_index m key))"
| r_index_assign: "reachable m \<Longrightarrow> reachable (HashMap_index_assign m key v)"
| r_clear: "reachable m \<Longrightarrow> reachable (HashMap_clear m)"

section \<open>Abstraction of the state\<close>

subsection \<open>What the array holds\<close>

text \<open>
  The content of a bucket: its pair when it is occupied, nothing otherwise. The pair
  member of an unoccupied bucket is stale storage.
\<close>

definition content :: "('k, 'v) Bucket \<Rightarrow> ('k \<times> 'v) option" where
  "content b = (if is_occupied b then Some (pair b) else None)"

definition contents :: "('k, 'v) BucketArray \<Rightarrow> ('k \<times> 'v) option list" where
  "contents this = map content (array this)"

fun somes :: "'a option list \<Rightarrow> 'a list" where
  "somes [] = []"
| "somes (None # cs) = somes cs"
| "somes (Some x # cs) = x # somes cs"

text \<open>The pairs of the occupied buckets in index order: what an iteration of the array visits.\<close>

definition table_pairs :: "('k, 'v) BucketArray \<Rightarrow> ('k \<times> 'v) list" where
  "table_pairs this = map pair (filter is_occupied (array this))"

text \<open>The number of addressable positions: \<open>array_.size() - NEXT + 1\<close>.\<close>

definition capacity :: "('k, 'v) BucketArray \<Rightarrow> nat" where
  "capacity this = length (array this) - NEXT + 1"

text \<open>Every occupied bucket lies in the window of its key.\<close>

definition placed :: "('k, 'v) BucketArray \<Rightarrow> bool" where
  "placed this =
     (\<forall>j < length (array this). is_occupied (array this ! j) \<longrightarrow>
        GetIndex this (fst (pair (array this ! j))) \<le> j \<and>
        j < GetIndex this (fst (pair (array this ! j))) + NEXT)"

text \<open>The pairs an iteration of the map visits: the array first, then the overflow vector.\<close>

definition elements :: "('k, 'v) HashMap \<Rightarrow> ('k \<times> 'v) list" where
  "elements this = table_pairs (b_array this) @ map pair (list this)"

definition hm_inv :: "('k, 'v) HashMap \<Rightarrow> bool" where
  "hm_inv this =
     (hash_func (b_array this) = map_hash_func this \<and>
      INITIAL_SIZE + NEXT - 1 \<le> length (array (b_array this)) \<and>
      placed (b_array this) \<and>
      pairs_count (b_array this) = length (table_pairs (b_array this)) \<and>
      (\<forall>x \<in> set (list this). is_occupied x) \<and>
      distinct (map fst (elements this)))"

text \<open>The map as a partial function from keys to values.\<close>

definition lookup :: "('k, 'v) HashMap \<Rightarrow> 'k \<Rightarrow> 'v option" where
  "lookup this = map_of (elements this)"

text \<open>
  The state of the displacement: \<open>empty_bucket\<close> is an unoccupied bucket of the array and
  every bucket from \<open>lo\<close> up to it is occupied.
\<close>

definition disp_state :: "('k, 'v) BucketArray \<Rightarrow> nat \<Rightarrow> nat \<Rightarrow> bool" where
  "disp_state this lo e =
     (e < length (array this) \<and> contents this ! e = None \<and>
      (\<forall>j. lo \<le> j \<and> j < e \<longrightarrow> contents this ! j \<noteq> None))"

text \<open>What the displacement keeps of the array, and what it adds to the log.\<close>

definition disp_rel ::
  "('k, 'v) BucketArray \<Rightarrow> read_log \<Rightarrow> ('k, 'v) BucketArray \<Rightarrow> read_log \<Rightarrow> bool" where
  "disp_rel this reads this' reads' =
     (length (array this') = length (array this) \<and>
      hash_func this' = hash_func this \<and>
      pairs_count this' = pairs_count this \<and>
      mset (contents this') = mset (contents this) \<and>
      (placed this \<longrightarrow> placed this') \<and>
      (\<exists>new. reads' = reads @ new \<and> (\<forall>r \<in> set new. snd r)))"

text \<open>The capacity that \<open>Reconstruct\<close> chooses.\<close>

definition new_size_of :: "('k, 'v) HashMap \<Rightarrow> bool \<Rightarrow> nat" where
  "new_size_of this change_size =
     max (if change_size
          then (if LoadFactor (b_array this) < MIN_LOAD_FACTOR
                then capacity (b_array this) div 2 else capacity (b_array this) * 2)
          else capacity (b_array this)) INITIAL_SIZE"

text \<open>A reference that points to a pair of the map.\<close>

definition valid_ref :: "('k, 'v) HashMap \<Rightarrow> pair_ref \<Rightarrow> bool" where
  "valid_ref this r =
     (case r of
        InArray i \<Rightarrow> i < length (array (b_array this)) \<and> is_occupied (array (b_array this) ! i)
      | InList j \<Rightarrow> j < length (list this)
      | FakePair \<Rightarrow> False)"

subsection \<open>Concrete maps\<close>

text \<open>Maps with \<open>nat\<close> keys and values and the identity as hash function.\<close>

definition fresh_map :: "(nat, nat) HashMap" where
  "fresh_map = HashMap_new id"

text \<open>The keys \<open>0, \<dots>, n - 1\<close>, each with itself as value, inserted in this order.\<close>

definition map_upto :: "nat \<Rightarrow> (nat, nat) HashMap" where
  "map_upto n = foldl (\<lambda>m k. HashMap_insert m (k, k)) fresh_map [0..<n]"

text \<open>An empty table of capacity 32.\<close>

definition empty_table :: "(nat, nat) BucketArray" where
  "empty_table = BucketArray_new 32 id"

text \<open>A table of capacity 32 whose buckets \<open>0, \<dots>, 31\<close> hold the keys \<open>0, \<dots>, 31\<close>.\<close>

definition full_window :: "(nat, nat) BucketArray" where
  "full_window =
     \<lparr>array = map (\<lambda>k. Bucket_of (k, k)) [0..<32] @ replicate 31 Bucket_default,
      pairs_count = 32, hash_func = id\<rparr>"

subsection \<open>A crowded map\<close>

text \<open>
  A map of capacity 64 whose buckets \<open>0, \<dots>, 31\<close> hold the keys \<open>0, 64, \<dots>, 64 * 31\<close>,
  which all have the ideal index 0.
\<close>

definition crowded_map :: "(nat, nat) HashMap" where
  "crowded_map =
     \<lparr>map_hash_func = id,
      b_array = \<lparr>array = map (\<lambda>k. Bucket_of (64 * k, k)) [0..<32] @ replicate 63 Bucket_default,
                 pairs_count = 32, hash_func = id\<rparr>,
      list = []\<rparr>"

subsection \<open>The load check of ForceInsert\<close>

text \<open>The map after the first statement of \<open>ForceInsert\<close>, the check of the load factor.\<close>

definition load_checked :: "('k::default, 'v::default) HashMap \<Rightarrow> ('k, 'v) HashMap" where
  "load_checked this =
     (if LoadFactor (b_array this) > MAX_LOAD_FACTOR \<or> LoadFactor (b_array this) < MIN_LOAD_FACTOR
      then Reconstruct this True False else this)"

subsection \<open>A map with a constant hash function\<close>

text \<open>A hash function that maps every key to 0, so that all keys share the window of index 0.\<close>

definition zero_hash :: "nat \<Rightarrow> nat" where
  "zero_hash k = 0"

text \<open>The keys \<open>0, \<dots>, n - 1\<close> inserted in this order into a fresh map with this hash function.\<close>

definition zero_map :: "nat \<Rightarrow> (nat, nat) HashMap" where
  "zero_map n = foldl (\<lambda>m k. HashMap_insert m (k, k)) (HashMap_new zero_hash) [0..<n]"

text \<open>After 55 such inserts, the keys \<open>0, \<dots>, j - 1\<close> erased in this order.\<close>

definition erased_zero_map :: "nat \<Rightarrow> (nat, nat) HashMap" where
  "erased_zero_map j = foldl HashMap_erase (zero_map 55) [0..<j]"

text \<open>
  A summary of a state of such a map: the array has \<open>c + NEXT - 1\<close> buckets of which \<open>t\<close>
  are occupied, the overflow vector holds the keys \<open>ks\<close> in this order, and \<open>D\<close> is the
  set of the keys of the map.
\<close>

definition shape :: "(nat, nat) HashMap \<Rightarrow> nat \<Rightarrow> nat \<Rightarrow> nat list \<Rightarrow> nat set \<Rightarrow> bool" where
  "shape m c t ks D =
     (hm_inv m \<and> map_hash_func m = zero_hash \<and>
      length (array (b_array m)) = c + NEXT - 1 \<and> pairs_count (b_array m) = t \<and>
      map (\<lambda>b. fst (pair b)) (list m) = ks \<and> dom (lookup m) = D)"

section \<open>Properties of the operations\<close>

subsection \<open>Buckets\<close>

lemma content_simps [simp]:
  "content (Bucket_of p) = Some p"
  "content (Bucket_assign a b) = content b"
  "content (Bucket_Set a p) = Some p"
  "content (Bucket_Erase a) = None"
  by (simp_all add: content_def Bucket_of_def Bucket_assign_def Bucket_Set_def Bucket_Erase_def)

lemma content_default [simp]:
  "content Bucket_default = None"
  "content (Bucket_copy c) = content c"
  by (simp_all add: content_def Bucket_default_def Bucket_assign_def Bucket_copy_def)

lemma content_swap [simp]:
  "content (fst (Bucket_swap a b)) = content b"
  "content (snd (Bucket_swap a b)) = content a"
  by (simp_all add: Bucket_swap_def Let_def)

lemma content_set_second:
  "content (set_second b v) = map_option (\<lambda>p. (fst p, v)) (content b)"
  by (simp add: content_def set_second_def)

lemma is_occupied_content: "is_occupied b \<longleftrightarrow> content b \<noteq> None"
  by (simp add: content_def)

lemma content_Some_iff: "content b = Some p \<longleftrightarrow> is_occupied b \<and> pair b = p"
  by (auto simp: content_def)

lemma content_None_iff: "content b = None \<longleftrightarrow> \<not> is_occupied b"
  by (simp add: content_def)

lemma HasKey_content: "HasKey b key \<longleftrightarrow> (\<exists>v. content b = Some (key, v))"
  by (cases "pair b") (auto simp: HasKey_def IsOccupied_def content_def)

lemma Bucket_copy_occupied: "is_occupied b \<Longrightarrow> Bucket_copy b = b"
  by (simp add: Bucket_copy_def Bucket_assign_def)

subsection \<open>Lists of optional pairs\<close>

lemma somes_append [simp]: "somes (xs @ ys) = somes xs @ somes ys"
  by (induction xs rule: somes.induct) simp_all

lemma somes_map_content: "somes (map content xs) = map pair (filter is_occupied xs)"
  by (induction xs) (simp_all add: content_def)

lemma table_pairs_somes: "table_pairs this = somes (contents this)"
  by (simp add: table_pairs_def contents_def somes_map_content)

lemma set_somes: "set (somes cs) = {p. Some p \<in> set cs}"
  by (induction cs rule: somes.induct) auto

lemma mset_somes: "mset (somes cs) = image_mset the (filter_mset (\<lambda>c. c \<noteq> None) (mset cs))"
  by (induction cs rule: somes.induct) simp_all

lemma mset_somes_cong: "mset cs = mset ds \<Longrightarrow> mset (somes cs) = mset (somes ds)"
  by (simp add: mset_somes)

lemma somes_replicate_None [simp]: "somes (replicate n None) = []"
  by (induction n) simp_all

lemma somes_update_None_Some:
  assumes "i < length cs" "cs ! i = None"
  shows "mset (somes (cs[i := Some p])) = add_mset p (mset (somes cs))"
proof -
  have "cs = take i cs @ None # drop (Suc i) cs"
    using assms by (metis id_take_nth_drop)
  then have "somes cs = somes (take i cs) @ somes (drop (Suc i) cs)"
    by (metis somes_append somes.simps(2))
  moreover have "somes (cs[i := Some p]) = somes (take i cs) @ p # somes (drop (Suc i) cs)"
    using assms by (simp add: upd_conv_take_nth_drop)
  ultimately show ?thesis by simp
qed

lemma somes_update_Some_None:
  assumes "i < length cs" "cs ! i = Some q"
  shows "mset (somes (cs[i := None])) = mset (somes cs) - {#q#}"
proof -
  have "cs = take i cs @ Some q # drop (Suc i) cs"
    using assms by (metis id_take_nth_drop)
  then have "somes cs = somes (take i cs) @ q # somes (drop (Suc i) cs)"
    by (metis somes_append somes.simps(3))
  moreover have "somes (cs[i := None]) = somes (take i cs) @ somes (drop (Suc i) cs)"
    using assms by (simp add: upd_conv_take_nth_drop)
  ultimately show ?thesis by simp
qed

lemma somes_update_Some_Some:
  assumes "i < length cs" "cs ! i = Some q"
  shows "mset (somes (cs[i := Some p])) = add_mset p (mset (somes cs) - {#q#})"
proof -
  have "mset (somes ((cs[i := None])[i := Some p])) = add_mset p (mset (somes (cs[i := None])))"
    by (rule somes_update_None_Some) (use assms in simp_all)
  then show ?thesis using somes_update_Some_None[OF assms] by simp
qed

lemma somes_nth: "i < length cs \<Longrightarrow> cs ! i = Some p \<Longrightarrow> p \<in> set (somes cs)"
  by (auto simp: set_somes in_set_conv_nth)

lemma in_somes_nth: "p \<in> set (somes cs) \<Longrightarrow> \<exists>i < length cs. cs ! i = Some p"
  by (auto simp: set_somes in_set_conv_nth)

lemma length_somes_le: "length (somes cs) \<le> length cs"
  by (induction cs rule: somes.induct) simp_all

subsection \<open>The array operations on contents\<close>

lemma length_contents [simp]: "length (contents this) = length (array this)"
  by (simp add: contents_def)

lemma contents_nth: "j < length (array this) \<Longrightarrow> contents this ! j = content (array this ! j)"
  by (simp add: contents_def)

lemma GetIndex_cong:
  "hash_func b' = hash_func b \<Longrightarrow> length (array b') = length (array b) \<Longrightarrow>
   GetIndex b' key = GetIndex b key"
  by (simp add: GetIndex_def)

lemma GetIndex_less: "NEXT \<le> length (array this) \<Longrightarrow> GetIndex this key < capacity this"
  by (simp add: GetIndex_def capacity_def Let_def)

lemma GetIndex_window: "NEXT \<le> length (array this) \<Longrightarrow> GetIndex this key + NEXT \<le> length (array this)"
  using GetIndex_less[of this key] by (simp add: capacity_def)

lemma placed_contents:
  "placed this \<longleftrightarrow>
     (\<forall>j < length (array this). \<forall>p. contents this ! j = Some p \<longrightarrow>
        GetIndex this (fst p) \<le> j \<and> j < GetIndex this (fst p) + NEXT)"
  by (auto simp: placed_def contents_nth content_Some_iff simp del: split_paired_All)

lemma placedD:
  "placed this \<Longrightarrow> j < length (array this) \<Longrightarrow> contents this ! j = Some p \<Longrightarrow>
   GetIndex this (fst p) \<le> j \<and> j < GetIndex this (fst p) + NEXT"
  unfolding placed_contents by blast

lemma swap_buckets_simps [simp]:
  "length (array (swap_buckets this i j)) = length (array this)"
  "hash_func (swap_buckets this i j) = hash_func this"
  "pairs_count (swap_buckets this i j) = pairs_count this"
  by (simp_all add: swap_buckets_def split: prod.split)

lemma contents_swap_buckets:
  assumes "i < length (array this)" "j < length (array this)"
  shows "contents (swap_buckets this i j) =
         (contents this)[i := contents this ! j, j := contents this ! i]"
proof -
  obtain a' b' where sw: "Bucket_swap (array this ! i) (array this ! j) = (a', b')"
    by (cases "Bucket_swap (array this ! i) (array this ! j)")
  from content_swap[of "array this ! i" "array this ! j"] sw
  have "content a' = content (array this ! j)" "content b' = content (array this ! i)"
    by simp_all
  with assms sw show ?thesis
    by (simp add: swap_buckets_def contents_def map_update)
qed

lemma mset_contents_swap_buckets:
  assumes "i < length (array this)" "j < length (array this)"
  shows "mset (contents (swap_buckets this i j)) = mset (contents this)"
  using assms by (simp add: contents_swap_buckets mset_swap)

subsection \<open>The loops of Insert\<close>

lemma scan_empty_spec:
  "scan_empty this i = e \<Longrightarrow>
   i \<le> e \<and> (\<forall>j. i \<le> j \<and> j < e \<longrightarrow> j < length (array this) \<and> is_occupied (array this ! j)) \<and>
   (e < length (array this) \<longrightarrow> \<not> is_occupied (array this ! e)) \<and>
   (i \<le> length (array this) \<longrightarrow> e \<le> length (array this))"
proof (induction this i arbitrary: e rule: scan_empty.induct)
  case (1 this i)
  show ?case
  proof (cases "i < length (array this) \<and> IsOccupied (array this ! i)")
    case False
    with "1.prems" have "e = i"
      by (subst (asm) scan_empty.simps) (auto split: if_splits)
    with False show ?thesis by (auto simp: IsOccupied_def)
  next
    case True
    with "1.prems" have rec: "scan_empty this (i + 1) = e"
      by (subst (asm) scan_empty.simps) simp
    from True have a: "i < length (array this)" and b: "\<not> \<not> IsOccupied (array this ! i)"
      by simp_all
    from "1.IH"[OF a b rec]
    have ih: "Suc i \<le> e"
      "\<And>j. Suc i \<le> j \<Longrightarrow> j < e \<Longrightarrow> j < length (array this) \<and> is_occupied (array this ! j)"
      "e < length (array this) \<longrightarrow> \<not> is_occupied (array this ! e)"
      "e \<le> length (array this)"
      using a by auto
    have "j < length (array this) \<and> is_occupied (array this ! j)" if "i \<le> j" "j < e" for j
    proof (cases "j = i")
      case True
      with a b show ?thesis by (simp add: IsOccupied_def)
    next
      case False
      with that ih(2)[of j] show ?thesis by simp
    qed
    with ih show ?thesis by simp
  qed
qed

lemma disp_state_swap:
  assumes d: "disp_state this lo e" and lo: "lo \<le> pot" and pe: "pot < e"
  shows "disp_state (swap_buckets this pot e) lo pot"
proof -
  from d pe have len: "pot < length (array this)" "e < length (array this)"
    by (simp_all add: disp_state_def)
  have c: "contents (swap_buckets this pot e) =
           (contents this)[pot := contents this ! e, e := contents this ! pot]"
    by (rule contents_swap_buckets[OF len])
  show ?thesis
    unfolding disp_state_def c using d len lo pe
    by (auto simp: disp_state_def nth_list_update)
qed

lemma placed_swap_buckets:
  assumes pe: "pot < e" and el: "e < length (array this)"
    and occ: "is_occupied (array this ! pot)" and emp: "\<not> is_occupied (array this ! e)"
    and pl: "placed this"
    and win: "e < GetIndex this (fst (GetRef (array this ! pot))) + NEXT"
  shows "placed (swap_buckets this pot e)"
proof -
  from pe el have len: "pot < length (array this)" "e < length (array this)"
    by simp_all
  have c: "contents (swap_buckets this pot e) =
           (contents this)[pot := contents this ! e, e := contents this ! pot]"
    by (rule contents_swap_buckets[OF len])
  have gi: "\<And>k. GetIndex (swap_buckets this pot e) k = GetIndex this k"
    by (rule GetIndex_cong) simp_all
  from occ len have "contents this ! pot \<noteq> None"
    by (simp add: contents_nth is_occupied_content)
  then obtain p where p: "contents this ! pot = Some p" by auto
  with len have pp: "pair (array this ! pot) = p"
    by (simp add: contents_nth content_Some_iff)
  from placedD[OF pl len(1) p] have ideal: "GetIndex this (fst p) \<le> pot"
    by simp
  from emp len have en: "contents this ! e = None"
    by (simp add: contents_nth content_None_iff)
  show ?thesis
    unfolding placed_contents c gi
  proof (intro allI impI)
    fix j q
    assume j: "j < length (array (swap_buckets this pot e))"
      and q: "(contents this)[pot := contents this ! e, e := contents this ! pot] ! j = Some q"
    show "GetIndex this (fst q) \<le> j \<and> j < GetIndex this (fst q) + NEXT"
    proof (cases "j = e")
      case True
      with q len p have "q = p" by simp
      with True ideal pe win pp show ?thesis by (simp add: GetRef_def)
    next
      case False
      with q len en have "j \<noteq> pot" by (auto simp: nth_list_update split: if_splits)
      with False q have "contents this ! j = Some q" by simp
      with placedD[OF pl, of j q] j show ?thesis by simp
    qed
  qed
qed

lemma placed_swap:
  assumes d: "disp_state this lo e" and lo: "lo \<le> pot" and pe: "pot < e"
    and pl: "placed this"
    and win: "e < GetIndex this (fst (GetRef (array this ! pot))) + NEXT"
  shows "placed (swap_buckets this pot e)"
proof -
  from d pe have len: "pot < length (array this)" "e < length (array this)"
    by (simp_all add: disp_state_def)
  from d lo pe len have "is_occupied (array this ! pot)" "\<not> is_occupied (array this ! e)"
    by (simp_all add: disp_state_def contents_nth is_occupied_content)
  from placed_swap_buckets[OF pe len(2) this pl win] show ?thesis .
qed

lemma disp_rel_refl: "disp_rel this reads this reads"
  by (simp add: disp_rel_def)

lemma disp_rel_trans:
  "disp_rel a r1 b r2 \<Longrightarrow> disp_rel b r2 c r3 \<Longrightarrow> disp_rel a r1 c r3"
  unfolding disp_rel_def by (elim conjE exE) (simp, force)

lemma disp_rel_swap:
  assumes d: "disp_state this lo e" and lo: "lo \<le> pot" and pe: "pot < e"
    and win: "e < GetIndex this (fst (GetRef (array this ! pot))) + NEXT"
  shows "disp_rel this reads (swap_buckets this pot e)
           (reads @ [(pot, is_occupied (array this ! pot))])"
proof -
  from d pe have len: "pot < length (array this)" "e < length (array this)"
    by (simp_all add: disp_state_def)
  from d lo pe have "contents this ! pot \<noteq> None" by (simp add: disp_state_def)
  with len have occ: "is_occupied (array this ! pot)"
    by (simp add: contents_nth is_occupied_content)
  show ?thesis
    unfolding disp_rel_def
    using mset_contents_swap_buckets[OF len] placed_swap[OF d lo pe _ win] occ
    by simp
qed

lemma disp_rel_read:
  assumes d: "disp_state this lo e" and lo: "lo \<le> pot" and pe: "pot < e"
  shows "disp_rel this reads this (reads @ [(pot, is_occupied (array this ! pot))])"
proof -
  from d pe have len: "pot < length (array this)" by (simp add: disp_state_def)
  from d lo pe have "contents this ! pot \<noteq> None" by (simp add: disp_state_def)
  with len have occ: "is_occupied (array this ! pot)"
    by (simp add: contents_nth is_occupied_content)
  then show ?thesis by (simp add: disp_rel_def)
qed

lemma for_pot_bucket_spec:
  "for_pot_bucket this e sw reads pot = (this', e', sw', reads') \<Longrightarrow>
   disp_state this lo e \<Longrightarrow> lo \<le> pot \<Longrightarrow>
   disp_state this' lo e' \<and> disp_rel this reads this' reads' \<and> (e' = e \<or> pot \<le> e')"
proof (induction this e sw reads pot arbitrary: this' e' sw' reads' rule: for_pot_bucket.induct)
  case (1 this e sw reads pot)
  note d = "1.prems"(2) and lo = "1.prems"(3)
  show ?case
  proof (cases "pot < e")
    case False
    with "1.prems"(1) have "this' = this" "e' = e" "reads' = reads"
      by (simp_all add: for_pot_bucket.simps[of this e sw reads pot])
    with d show ?thesis by (simp add: disp_rel_refl)
  next
    case pe: True
    let ?reads = "reads @ [(pot, is_occupied (array this ! pot))]"
    show ?thesis
    proof (cases "e < GetIndex this (fst (GetRef (array this ! pot))) + NEXT")
      case True
      with pe "1.prems"(1)
      have rec: "for_pot_bucket (swap_buckets this pot e) pot True ?reads (pot + 1)
                 = (this', e', sw', reads')"
        by (simp add: for_pot_bucket.simps[of this e sw reads pot] Let_def)
      have d': "disp_state (swap_buckets this pot e) lo pot"
        by (rule disp_state_swap[OF d lo pe])
      from "1.IH"(1)[OF pe refl refl True rec d'] lo
      have ih: "disp_state this' lo e'" "disp_rel (swap_buckets this pot e) ?reads this' reads'"
        "e' = pot \<or> pot + 1 \<le> e'"
        by simp_all
      from disp_rel_trans[OF disp_rel_swap[OF d lo pe True] ih(2)] ih(1,3)
      show ?thesis by auto
    next
      case False
      with pe "1.prems"(1)
      have rec: "for_pot_bucket this e sw ?reads (pot + 1) = (this', e', sw', reads')"
        by (simp add: for_pot_bucket.simps[of this e sw reads pot] Let_def)
      from "1.IH"(2)[OF pe refl refl False rec d] lo
      have ih: "disp_state this' lo e'" "disp_rel this ?reads this' reads'"
        "e' = e \<or> pot + 1 \<le> e'"
        by simp_all
      from disp_rel_trans[OF disp_rel_read[OF d lo pe] ih(2)] ih(1,3)
      show ?thesis by auto
    qed
  qed
qed

lemma while_displace_spec:
  "while_displace this arr_index e sw reads = (this', e', sw', reads') \<Longrightarrow>
   disp_state this arr_index e \<Longrightarrow> arr_index \<le> e \<Longrightarrow>
   disp_state this' arr_index e' \<and> disp_rel this reads this' reads' \<and>
   arr_index \<le> e' \<and> e' \<le> e \<and> (sw' \<longrightarrow> e' < arr_index + NEXT)"
proof (induction this arr_index e sw reads arbitrary: this' e' sw' reads'
       rule: while_displace.induct)
  case (1 this arr_index e sw reads)
  note d = "1.prems"(2) and le = "1.prems"(3)
  show ?case
  proof (cases "arr_index + NEXT \<le> e")
    case False
    with "1.prems"(1) have "this' = this" "e' = e" "sw' = sw" "reads' = reads"
      by (simp_all add: while_displace.simps[of this arr_index e sw reads])
    with d le False show ?thesis by (simp add: disp_rel_refl)
  next
    case True
    obtain t1 e1 s1 r1 where
      fp: "for_pot_bucket this e False reads (e - NEXT + 1) = (t1, e1, s1, r1)"
      by (metis prod_cases4)
    from True have lo: "arr_index \<le> e - NEXT + 1" by simp
    from for_pot_bucket_spec[OF fp d lo] le lo
    have st: "disp_state t1 arr_index e1" "disp_rel this reads t1 r1" "arr_index \<le> e1"
      by auto
    from for_pot_bucket_le[OF fp] have lt: "e1 \<le> e" by simp
    show ?thesis
    proof (cases s1)
      case False
      with True fp "1.prems"(1) have "this' = t1" "e' = e1" "sw' = s1" "reads' = r1"
        by (simp_all add: while_displace.simps[of this arr_index e sw reads])
      with st lt False show ?thesis by simp
    next
      case s1: True
      with True fp "1.prems"(1)
      have rec: "while_displace t1 arr_index e1 s1 r1 = (this', e', sw', reads')"
        by (simp add: while_displace.simps[of this arr_index e sw reads])
      have "\<not> \<not> s1" using s1 by simp
      from "1.IH"[OF True fp[symmetric] refl refl this rec st(1) st(3)]
      have ih: "disp_state this' arr_index e'" "disp_rel t1 r1 this' reads'"
        "arr_index \<le> e'" "sw' \<longrightarrow> e' < arr_index + NEXT" "e' \<le> e1"
        by auto
      from disp_rel_trans[OF st(2) ih(2)] ih lt s1 show ?thesis by auto
    qed
  qed
qed

subsection \<open>Insert\<close>

lemma placed_Set:
  assumes pl: "placed this" and e: "e < length (array this)"
    and lo: "GetIndex this (fst p) \<le> e" and hi: "e < GetIndex this (fst p) + NEXT"
  shows "placed (this\<lparr>array := (array this)[e := Bucket_Set (array this ! e) p],
                       pairs_count := n\<rparr>)"
proof -
  let ?t = "this\<lparr>array := (array this)[e := Bucket_Set (array this ! e) p], pairs_count := n\<rparr>"
  have gi: "\<And>k. GetIndex ?t k = GetIndex this k"
    by (rule GetIndex_cong) simp_all
  have c: "contents ?t = (contents this)[e := Some p]"
    by (simp add: contents_def map_update)
  show ?thesis
    unfolding placed_contents c gi
  proof (intro allI impI)
    fix j q
    assume j: "j < length (array ?t)" and q: "(contents this)[e := Some p] ! j = Some q"
    show "GetIndex this (fst q) \<le> j \<and> j < GetIndex this (fst q) + NEXT"
    proof (cases "j = e")
      case True
      with q e have "q = p" by simp
      with True lo hi show ?thesis by simp
    next
      case False
      with q have "contents this ! j = Some q" by simp
      with placedD[OF pl, of j q] j show ?thesis by simp
    qed
  qed
qed

lemma Insert_logged_spec:
  assumes cap: "NEXT \<le> length (array this)"
    and ins: "Insert_logged this p = ((ok, r), this', reads)"
  shows "length (array this') = length (array this) \<and> hash_func this' = hash_func this \<and>
         (placed this \<longrightarrow> placed this') \<and> (\<forall>x \<in> set reads. snd x) \<and>
         (if ok
          then mset (table_pairs this') = add_mset p (mset (table_pairs this)) \<and>
               pairs_count this' = pairs_count this + 1 \<and>
               (\<exists>e < length (array this). r = InArray e \<and> contents this' ! e = Some p)
          else mset (table_pairs this') = mset (table_pairs this) \<and>
               pairs_count this' = pairs_count this \<and> r = FakePair)"
proof -
  define arr_index where "arr_index = GetIndex this (fst p)"
  define e where "e = scan_empty this arr_index"
  from GetIndex_window[OF cap, of "fst p"] have ai: "arr_index + NEXT \<le> length (array this)"
    by (simp add: arr_index_def)
  then have ai_le: "arr_index \<le> length (array this)" by simp
  from scan_empty_spec[OF e_def[symmetric]] ai_le
  have sc: "arr_index \<le> e" "e \<le> length (array this)"
    "\<And>j. arr_index \<le> j \<Longrightarrow> j < e \<Longrightarrow> is_occupied (array this ! j)"
    "e < length (array this) \<Longrightarrow> \<not> is_occupied (array this ! e)"
    by auto
  show ?thesis
  proof (cases "e = length (array this)")
    case True
    with ins have "ok = False" "r = FakePair" "this' = this" "reads = []"
      by (simp_all add: Insert_logged_def Let_def arr_index_def[symmetric] e_def[symmetric])
    then show ?thesis by simp
  next
    case False
    with sc(2) have el: "e < length (array this)" by simp
    have d: "disp_state this arr_index e"
      unfolding disp_state_def using el sc(3,4) sc(2)
      by (auto simp: contents_nth content_None_iff)
    obtain t1 e1 s1 r1 where
      wd: "while_displace this arr_index e True [] = (t1, e1, s1, r1)"
      by (metis prod_cases4)
    from while_displace_spec[OF wd d sc(1)]
    have w: "disp_state t1 arr_index e1" "disp_rel this [] t1 r1" "arr_index \<le> e1"
      "s1 \<longrightarrow> e1 < arr_index + NEXT"
      by simp_all
    from w(2) have rel: "length (array t1) = length (array this)" "hash_func t1 = hash_func this"
      "pairs_count t1 = pairs_count this" "mset (contents t1) = mset (contents this)"
      "placed this \<longrightarrow> placed t1" "\<forall>x \<in> set r1. snd x"
      by (auto simp: disp_rel_def)
    from w(1) rel(1) have e1: "e1 < length (array this)" "contents t1 ! e1 = None"
      by (simp_all add: disp_state_def)
    have gi: "GetIndex t1 (fst p) = arr_index"
      unfolding arr_index_def by (rule GetIndex_cong) (simp_all add: rel)
    show ?thesis
    proof (cases s1)
      case False
      with ins wd \<open>e \<noteq> length (array this)\<close>
      have "ok = False" "r = FakePair" "this' = t1" "reads = r1"
        by (simp_all add: Insert_logged_def Let_def arr_index_def[symmetric] e_def[symmetric])
      with rel(1,2,3,5,6) mset_somes_cong[OF rel(4)] show ?thesis
        by (simp add: table_pairs_somes)
    next
      case True
      let ?t = "t1\<lparr>array := (array t1)[e1 := Bucket_Set (array t1 ! e1) p],
                    pairs_count := pairs_count t1 + 1\<rparr>"
      from True ins wd \<open>e \<noteq> length (array this)\<close>
      have res: "ok = True" "r = InArray e1" "this' = ?t" "reads = r1"
        by (simp_all add: Insert_logged_def Let_def arr_index_def[symmetric] e_def[symmetric])
      have c: "contents ?t = (contents t1)[e1 := Some p]"
        by (simp add: contents_def map_update)
      have m: "mset (somes (contents ?t)) = add_mset p (mset (somes (contents this)))"
        unfolding c using somes_update_None_Some[of e1 "contents t1" p] e1 rel(1)
          mset_somes_cong[OF rel(4)] by simp
      have pl: "placed this \<longrightarrow> placed ?t"
      proof
        assume "placed this"
        with rel(5) have "placed t1" by simp
        then show "placed ?t"
          by (rule placed_Set) (use e1 rel(1) gi w(3,4) True in simp_all)
      qed
      have nth: "contents ?t ! e1 = Some p"
        unfolding c using e1 rel(1) by simp
      show ?thesis
        unfolding res using rel(1,2,3,6) m pl nth e1(1)
        by (simp add: table_pairs_somes)
    qed
  qed
qed

lemma Insert_spec:
  assumes cap: "NEXT \<le> length (array this)"
    and ins: "Insert this p = ((ok, r), this')"
  shows "length (array this') = length (array this) \<and> hash_func this' = hash_func this \<and>
         (placed this \<longrightarrow> placed this') \<and>
         (if ok
          then mset (table_pairs this') = add_mset p (mset (table_pairs this)) \<and>
               pairs_count this' = pairs_count this + 1 \<and>
               (\<exists>e < length (array this). r = InArray e \<and> contents this' ! e = Some p)
          else mset (table_pairs this') = mset (table_pairs this) \<and>
               pairs_count this' = pairs_count this \<and> r = FakePair)"
proof -
  obtain reads where "Insert_logged this p = ((ok, r), this', reads)"
    using ins by (auto simp: Insert_def split: prod.splits)
  from Insert_logged_spec[OF cap this] show ?thesis by simp
qed

subsection \<open>Find and Erase\<close>

lemma Find_loop_spec:
  "Find_loop this key i hi = r \<Longrightarrow> hi \<le> length (array this) \<Longrightarrow>
   (r = length (array this) \<and> (\<forall>j. i \<le> j \<and> j < hi \<longrightarrow> \<not> HasKey (array this ! j) key)) \<or>
   (i \<le> r \<and> r < hi \<and> HasKey (array this ! r) key)"
proof (induction this key i hi arbitrary: r rule: Find_loop.induct)
  case (1 this key i hi)
  show ?case
  proof (cases "i < hi")
    case False
    with "1.prems" show ?thesis
      by (auto simp: Find_loop.simps[of this key i hi] End_def)
  next
    case True
    show ?thesis
    proof (cases "HasKey (array this ! i) key")
      case hk: True
      with True "1.prems" have "r = i"
        by (simp add: Find_loop.simps[of this key i hi])
      with True hk show ?thesis by simp
    next
      case False
      with True "1.prems" have rec: "Find_loop this key (i + 1) hi = r"
        by (simp add: Find_loop.simps[of this key i hi])
      from "1.IH"[OF True False rec "1.prems"(2)]
      show ?thesis
      proof
        assume a: "r = length (array this) \<and>
                   (\<forall>j. i + 1 \<le> j \<and> j < hi \<longrightarrow> \<not> HasKey (array this ! j) key)"
        have "\<not> HasKey (array this ! j) key" if "i \<le> j" "j < hi" for j
        proof (cases "j = i")
          case True
          with False show ?thesis by simp
        next
          case False
          with that a show ?thesis by simp
        qed
        with a show ?thesis by simp
      next
        assume "i + 1 \<le> r \<and> r < hi \<and> HasKey (array this ! r) key"
        then show ?thesis by simp
      qed
    qed
  qed
qed

lemma table_key_iff:
  "key \<in> fst ` set (table_pairs this) \<longleftrightarrow>
   (\<exists>j < length (array this). HasKey (array this ! j) key)"
proof
  assume "key \<in> fst ` set (table_pairs this)"
  then obtain v where "(key, v) \<in> set (somes (contents this))"
    by (auto simp: table_pairs_somes)
  from in_somes_nth[OF this] show "\<exists>j < length (array this). HasKey (array this ! j) key"
    by (auto simp: contents_nth HasKey_content)
next
  assume "\<exists>j < length (array this). HasKey (array this ! j) key"
  then obtain j v where j: "j < length (array this)" "contents this ! j = Some (key, v)"
    by (auto simp: contents_nth HasKey_content)
  then have "(key, v) \<in> set (somes (contents this))"
    by (intro somes_nth[of j]) simp_all
  then show "key \<in> fst ` set (table_pairs this)"
    by (force simp: table_pairs_somes)
qed

lemma Find_spec:
  assumes cap: "NEXT \<le> length (array this)" and pl: "placed this"
  shows "(Find this key = End this \<longleftrightarrow> key \<notin> fst ` set (table_pairs this)) \<and>
         (Find this key \<noteq> End this \<longrightarrow>
            Find this key < length (array this) \<and> HasKey (array this ! Find this key) key)"
proof -
  let ?i = "GetIndex this key"
  have hi: "?i + NEXT \<le> length (array this)" by (rule GetIndex_window[OF cap])
  have f: "Find this key = Find_loop this key ?i (?i + NEXT)"
    by (simp add: Find_def Let_def)
  from Find_loop_spec[OF refl hi, of key ?i]
  show ?thesis
  proof
    assume a: "Find_loop this key ?i (?i + NEXT) = length (array this) \<and>
               (\<forall>j. ?i \<le> j \<and> j < ?i + NEXT \<longrightarrow> \<not> HasKey (array this ! j) key)"
    have "\<not> HasKey (array this ! j) key" if j: "j < length (array this)" for j
    proof
      assume "HasKey (array this ! j) key"
      then obtain v where c: "contents this ! j = Some (key, v)"
        using j by (auto simp: HasKey_content contents_nth)
      from placedD[OF pl j c] have "?i \<le> j \<and> j < ?i + NEXT" by simp
      with a \<open>HasKey (array this ! j) key\<close> show False by blast
    qed
    then have "key \<notin> fst ` set (table_pairs this)"
      unfolding table_key_iff by blast
    with a show ?thesis by (simp add: f End_def)
  next
    assume a: "?i \<le> Find_loop this key ?i (?i + NEXT) \<and>
               Find_loop this key ?i (?i + NEXT) < ?i + NEXT \<and>
               HasKey (array this ! Find_loop this key ?i (?i + NEXT)) key"
    with hi have lt: "Find this key < length (array this)" by (simp add: f)
    with a have "key \<in> fst ` set (table_pairs this)"
      unfolding table_key_iff f by blast
    with a lt show ?thesis by (simp add: f End_def)
  qed
qed

lemma Erase_spec:
  assumes cap: "NEXT \<le> length (array this)" and pl: "placed this"
    and cnt: "pairs_count this = length (table_pairs this)"
    and er: "Erase this key = (erased, this')"
  shows "length (array this') = length (array this) \<and> hash_func this' = hash_func this \<and>
         placed this' \<and> pairs_count this' = length (table_pairs this') \<and>
         (if erased
          then \<exists>v. (key, v) \<in> set (table_pairs this) \<and>
                   mset (table_pairs this') = mset (table_pairs this) - {#(key, v)#}
          else this' = this \<and> key \<notin> fst ` set (table_pairs this))"
proof (cases "Find this key = End this")
  case True
  with er have "erased = False" "this' = this"
    by (simp_all add: Erase_def Let_def)
  with Find_spec[OF cap pl, of key] True pl cnt show ?thesis by simp
next
  case False
  let ?it = "Find this key"
  let ?t = "this\<lparr>array := (array this)[?it := Bucket_Erase (array this ! ?it)],
                  pairs_count := size_t_dec (pairs_count this)\<rparr>"
  from False er have res: "erased = True" "this' = ?t"
    by (simp_all add: Erase_def Let_def)
  from Find_spec[OF cap pl, of key] False
  have it: "?it < length (array this)" "HasKey (array this ! ?it) key"
    by simp_all
  then obtain v where v: "contents this ! ?it = Some (key, v)"
    by (auto simp: HasKey_content contents_nth)
  have c: "contents ?t = (contents this)[?it := None]"
    by (simp add: contents_def map_update)
  have m: "mset (table_pairs ?t) = mset (table_pairs this) - {#(key, v)#}"
    unfolding table_pairs_somes c using somes_update_Some_None[of ?it "contents this"] it v
    by simp
  have mem: "(key, v) \<in> set (table_pairs this)"
    unfolding table_pairs_somes by (rule somes_nth[of ?it]) (use it v in simp_all)
  then have pos: "0 < length (table_pairs this)" by (cases "table_pairs this") auto
  from m mem have "size (mset (table_pairs ?t)) = size (mset (table_pairs this)) - 1"
    by (simp add: size_Diff_singleton)
  then have len: "length (table_pairs ?t) = length (table_pairs this) - 1"
    by simp
  have cnt': "pairs_count ?t = length (table_pairs ?t)"
    using pos cnt len by (simp add: size_t_dec_def)
  have gi: "\<And>k. GetIndex ?t k = GetIndex this k"
    by (rule GetIndex_cong) simp_all
  have pl': "placed ?t"
    unfolding placed_contents c gi
  proof (intro allI impI)
    fix j q
    assume j: "j < length (array ?t)" and q: "(contents this)[?it := None] ! j = Some q"
    then have "contents this ! j = Some q"
      by (cases "j = ?it") (use it in auto)
    with placedD[OF pl, of j q] j
    show "GetIndex this (fst q) \<le> j \<and> j < GetIndex this (fst q) + NEXT" by simp
  qed
  show ?thesis
    unfolding res using m mem cnt' pl' by auto
qed

subsection \<open>Iteration visits the elements\<close>

lemma filter_drop_skip:
  "i \<le> r \<Longrightarrow> r \<le> length xs \<Longrightarrow> (\<And>j. i \<le> j \<Longrightarrow> j < r \<Longrightarrow> \<not> P (xs ! j)) \<Longrightarrow>
   filter P (drop i xs) = filter P (drop r xs)"
proof (induction "r - i" arbitrary: i)
  case 0
  then show ?case by simp
next
  case (Suc n)
  then have i: "i < r" "i < length xs" by simp_all
  from Suc.prems(3)[of i] i have np: "\<not> P (xs ! i)" by simp
  have "filter P (drop (Suc i) xs) = filter P (drop r xs)"
    by (rule Suc.hyps(1)) (use Suc.hyps(2) Suc.prems i in auto)
  moreover have "drop i xs = xs ! i # drop (Suc i) xs"
    using i by (simp add: Cons_nth_drop_Suc)
  ultimately show ?case using np by simp
qed

lemma FirstOccupiedBucket_spec:
  "FirstOccupiedBucket this i = r \<Longrightarrow> i \<le> length (array this) \<Longrightarrow>
   i \<le> r \<and> r \<le> length (array this) \<and>
   (r < length (array this) \<longrightarrow> is_occupied (array this ! r)) \<and>
   (\<forall>j. i \<le> j \<and> j < r \<longrightarrow> \<not> is_occupied (array this ! j))"
proof (induction this i arbitrary: r rule: FirstOccupiedBucket.induct)
  case (1 this i)
  show ?case
  proof (cases "i < length (array this)")
    case False
    with "1.prems" show ?thesis
      by (auto simp: FirstOccupiedBucket.simps[of this i] End_def)
  next
    case True
    show ?thesis
    proof (cases "IsOccupied (array this ! i)")
      case occ: True
      with True "1.prems" have "r = i"
        by (simp add: FirstOccupiedBucket.simps[of this i] End_def)
      with True occ show ?thesis by (auto simp: IsOccupied_def)
    next
      case False
      with True "1.prems" have rec: "FirstOccupiedBucket this (i + 1) = r"
        by (simp add: FirstOccupiedBucket.simps[of this i] End_def)
      from True have t: "i < End this" by (simp add: End_def)
      from "1.IH"[OF t False rec] True
      have ih: "i + 1 \<le> r" "r \<le> length (array this)"
        "r < length (array this) \<longrightarrow> is_occupied (array this ! r)"
        "\<And>j. i + 1 \<le> j \<Longrightarrow> j < r \<Longrightarrow> \<not> is_occupied (array this ! j)"
        by auto
      have "\<not> is_occupied (array this ! j)" if "i \<le> j" "j < r" for j
      proof (cases "j = i")
        case True
        with False show ?thesis by (simp add: IsOccupied_def)
      next
        case False
        with that ih(4)[of j] show ?thesis by simp
      qed
      with ih show ?thesis by simp
    qed
  qed
qed

lemma iter_incr_loop_spec:
  "b_array_iter it < b_array_end it \<Longrightarrow> b_array_end it = length (array (b_array this)) \<Longrightarrow>
   (b_array_iter (iter_incr_loop this it) < b_array_end it \<longrightarrow>
      is_occupied (array (b_array this) ! b_array_iter (iter_incr_loop this it))) \<and>
   (\<forall>j. b_array_iter it < j \<and> j < b_array_iter (iter_incr_loop this it) \<longrightarrow>
      \<not> is_occupied (array (b_array this) ! j))"
proof (induction this it rule: iter_incr_loop.induct)
  case (1 this it)
  let ?it' = "it\<lparr>b_array_iter := b_array_iter it + 1\<rparr>"
  show ?case
  proof (cases "b_array_iter ?it' \<noteq> b_array_end ?it' \<and>
                IsOccupied (array (b_array this) ! b_array_iter ?it')")
    case True
    with "1.prems" have "iter_incr_loop this it = ?it'"
      by (simp add: iter_incr_loop.simps[of this it] Let_def)
    with True show ?thesis by (auto simp: IsOccupied_def)
  next
    case False
    have eq: "iter_incr_loop this it = iter_incr_loop this ?it'"
      using "1.prems" False by (subst iter_incr_loop.simps) (auto simp: Let_def)
    show ?thesis
    proof (cases "b_array_iter ?it' < b_array_end ?it'")
      case lt: True
      with False have nocc: "\<not> is_occupied (array (b_array this) ! (b_array_iter it + 1))"
        by (simp add: IsOccupied_def)
      from "1.IH"[OF "1.prems"(1) refl False lt] "1.prems"(2)
      have ih: "b_array_iter (iter_incr_loop this ?it') < b_array_end it \<longrightarrow>
                is_occupied (array (b_array this) ! b_array_iter (iter_incr_loop this ?it'))"
        "\<And>j. b_array_iter it + 1 < j \<Longrightarrow> j < b_array_iter (iter_incr_loop this ?it') \<Longrightarrow>
             \<not> is_occupied (array (b_array this) ! j)"
        by auto
      have "\<not> is_occupied (array (b_array this) ! j)"
        if "b_array_iter it < j" "j < b_array_iter (iter_incr_loop this ?it')" for j
      proof (cases "j = b_array_iter it + 1")
        case True
        with nocc show ?thesis by simp
      next
        case False
        with that ih(2)[of j] show ?thesis by simp
      qed
      with ih(1) show ?thesis unfolding eq by simp
    next
      case ge: False
      then have "iter_incr_loop this ?it' = ?it'"
        by (subst iter_incr_loop.simps) simp
      with "1.prems" ge show ?thesis unfolding eq by auto
    qed
  qed
qed

lemma range_for_from:
  "b_array_end it = length (array (b_array this)) \<Longrightarrow> list_end it = length (list this) \<Longrightarrow>
   b_array_iter it \<le> b_array_end it \<Longrightarrow>
   (b_array_iter it < b_array_end it \<longrightarrow> is_occupied (array (b_array this) ! b_array_iter it)) \<Longrightarrow>
   range_for this body s it =
     foldl body s (map pair (filter is_occupied (drop (b_array_iter it) (array (b_array this))))
                   @ map pair (drop (list_iter it) (list this)))"
proof (induction this body s it rule: range_for.induct)
  case (1 this body s it)
  let ?arr = "array (b_array this)"
  let ?ai = "b_array_iter it"
  show ?case
  proof (cases "?ai < b_array_end it")
    case True
    let ?it' = "iter_incr_loop this it"
    have inc: "iter_incr this it = ?it'" using True by (simp add: iter_incr_def)
    from iter_incr_loop_bounds[OF True, of this]
    have b: "?ai < b_array_iter ?it'" "b_array_iter ?it' \<le> b_array_end it"
      "b_array_end ?it' = b_array_end it" "list_iter ?it' = list_iter it"
      "list_end ?it' = list_end it"
      by simp_all
    from iter_incr_loop_spec[OF True "1.prems"(1)]
    have sp: "b_array_iter ?it' < b_array_end it \<longrightarrow> is_occupied (?arr ! b_array_iter ?it')"
      "\<And>j. ?ai < j \<Longrightarrow> j < b_array_iter ?it' \<Longrightarrow> \<not> is_occupied (?arr ! j)"
      by auto
    have cond: "?ai < b_array_end it \<or> list_iter it < list_end it" using True by simp
    have ih: "range_for this body (body s (GetRef (?arr ! ?ai))) ?it' =
          foldl body (body s (GetRef (?arr ! ?ai)))
            (map pair (filter is_occupied (drop (b_array_iter ?it') ?arr))
             @ map pair (drop (list_iter ?it') (list this)))"
      using "1.IH"[OF cond] "1.prems" b sp(1) True unfolding inc by simp
    from "1.prems"(4) True have occ: "is_occupied (?arr ! ?ai)" by simp
    have "filter is_occupied (drop (Suc ?ai) ?arr) = filter is_occupied (drop (b_array_iter ?it') ?arr)"
      by (rule filter_drop_skip) (use b "1.prems"(1) sp(2) in auto)
    moreover have "drop ?ai ?arr = ?arr ! ?ai # drop (Suc ?ai) ?arr"
      using True "1.prems"(1) by (simp add: Cons_nth_drop_Suc)
    ultimately have "filter is_occupied (drop ?ai ?arr) =
                     ?arr ! ?ai # filter is_occupied (drop (b_array_iter ?it') ?arr)"
      using occ by simp
    moreover have "range_for this body s it = range_for this body (body s (GetRef (?arr ! ?ai))) ?it'"
      using True by (subst range_for.simps) (simp add: inc)
    ultimately show ?thesis using ih b(4) by (simp add: GetRef_def)
  next
    case False
    with "1.prems"(3) have ae: "?ai = b_array_end it" by simp
    then have nil: "drop ?ai ?arr = []" using "1.prems"(1) by simp
    show ?thesis
    proof (cases "list_iter it < list_end it")
      case lt: True
      have inc: "iter_incr this it = it\<lparr>list_iter := list_iter it + 1\<rparr>"
        using False by (simp add: iter_incr_def)
      have cond: "?ai < b_array_end it \<or> list_iter it < list_end it" using lt by simp
      have ih: "range_for this body (body s (GetRef (list this ! list_iter it)))
                  (it\<lparr>list_iter := list_iter it + 1\<rparr>) =
          foldl body (body s (GetRef (list this ! list_iter it)))
            (map pair (drop (list_iter it + 1) (list this)))"
        using "1.IH"[OF cond] "1.prems" ae nil unfolding inc by simp
      have "drop (list_iter it) (list this) = list this ! list_iter it # drop (Suc (list_iter it)) (list this)"
        using lt "1.prems"(2) by (simp add: Cons_nth_drop_Suc)
      moreover have "range_for this body s it =
            range_for this body (body s (GetRef (list this ! list_iter it)))
              (it\<lparr>list_iter := list_iter it + 1\<rparr>)"
        using lt ae by (subst range_for.simps) (simp add: inc)
      ultimately show ?thesis using ih nil by (simp add: GetRef_def)
    next
      case ge: False
      then have "drop (list_iter it) (list this) = []" using "1.prems"(2) by simp
      moreover have "range_for this body s it = s"
        using False ge by (subst range_for.simps) simp
      ultimately show ?thesis using nil by simp
    qed
  qed
qed

lemma range_for_elements:
  "range_for this body s (HashMap_begin this) = foldl body s (elements this)"
proof -
  let ?it = "HashMap_begin this"
  from FirstOccupiedBucket_spec[OF refl, of 0 "b_array this"]
  have f: "b_array_iter ?it \<le> length (array (b_array this))"
    "b_array_iter ?it < length (array (b_array this)) \<longrightarrow>
       is_occupied (array (b_array this) ! b_array_iter ?it)"
    "\<And>j. j < b_array_iter ?it \<Longrightarrow> \<not> is_occupied (array (b_array this) ! j)"
    by (auto simp: HashMap_begin_def)
  have "filter is_occupied (drop 0 (array (b_array this))) =
        filter is_occupied (drop (b_array_iter ?it) (array (b_array this)))"
    by (rule filter_drop_skip) (use f in auto)
  moreover have "range_for this body s ?it =
     foldl body s (map pair (filter is_occupied (drop (b_array_iter ?it) (array (b_array this))))
                   @ map pair (drop (list_iter ?it) (list this)))"
    by (rule range_for_from) (use f in \<open>auto simp: HashMap_begin_def End_def\<close>)
  ultimately show ?thesis
    by (simp add: elements_def table_pairs_def HashMap_begin_def)
qed

subsection \<open>Reconstruct\<close>

lemma placed_cong:
  "contents b' = contents b \<Longrightarrow> hash_func b' = hash_func b \<Longrightarrow> placed b' = placed b"
proof -
  assume c: "contents b' = contents b" and h: "hash_func b' = hash_func b"
  from c have l: "length (array b') = length (array b)"
    by (metis length_contents)
  have "\<And>k. GetIndex b' k = GetIndex b k" by (rule GetIndex_cong[OF h l])
  then show ?thesis by (simp add: placed_contents c l)
qed

lemma BucketArray_new_simps [simp]:
  "length (array (BucketArray_new n h)) = n + NEXT - 1"
  "hash_func (BucketArray_new n h) = h"
  "pairs_count (BucketArray_new n h) = 0"
  "contents (BucketArray_new n h) = replicate (n + NEXT - 1) None"
  by (simp_all add: BucketArray_new_def contents_def)

lemma table_pairs_new [simp]: "table_pairs (BucketArray_new n h) = []"
  by (simp add: table_pairs_somes)

lemma placed_new: "placed (BucketArray_new n h)"
  by (simp add: placed_contents)

lemma BucketArray_assign_simps [simp]:
  "length (array (BucketArray_assign b t)) = length (array t)"
  "hash_func (BucketArray_assign b t) = hash_func b"
  "pairs_count (BucketArray_assign b t) = pairs_count t"
  "contents (BucketArray_assign b t) = contents t"
  by (simp_all add: BucketArray_assign_def contents_def comp_def)

lemma table_pairs_assign [simp]: "table_pairs (BucketArray_assign b t) = table_pairs t"
  by (simp add: table_pairs_somes)

lemma Reconstruct_body_fold:
  "foldl Reconstruct_body (t, l) ps = (t', l') \<Longrightarrow> NEXT \<le> length (array t) \<Longrightarrow>
   length (array t') = length (array t) \<and> hash_func t' = hash_func t \<and>
   (placed t \<longrightarrow> placed t') \<and>
   (pairs_count t = length (table_pairs t) \<longrightarrow> pairs_count t' = length (table_pairs t')) \<and>
   mset (table_pairs t') + mset (map pair l') = mset ps + (mset (table_pairs t) + mset (map pair l)) \<and>
   ((\<forall>x \<in> set l. is_occupied x) \<longrightarrow> (\<forall>x \<in> set l'. is_occupied x))"
proof (induction ps arbitrary: t l)
  case Nil
  then show ?case by simp
next
  case (Cons p ps)
  obtain ok r t1 where ins: "Insert t p = ((ok, r), t1)"
    by (metis prod.exhaust)
  define l1 where "l1 = (if \<not> ok then l @ [Bucket_of p] else l)"
  have step: "Reconstruct_body (t, l) p = (t1, l1)"
    by (simp add: Reconstruct_body_def ins l1_def)
  from Insert_spec[OF Cons.prems(2) ins]
  have sp: "length (array t1) = length (array t)" "hash_func t1 = hash_func t"
    "placed t \<longrightarrow> placed t1"
    "ok \<Longrightarrow> mset (table_pairs t1) = add_mset p (mset (table_pairs t)) \<and>
            pairs_count t1 = pairs_count t + 1"
    "\<not> ok \<Longrightarrow> mset (table_pairs t1) = mset (table_pairs t) \<and> pairs_count t1 = pairs_count t"
    by (auto split: if_splits)
  from Cons.prems(1) have rest: "foldl Reconstruct_body (t1, l1) ps = (t', l')"
    by (simp add: step)
  from Cons.prems(2) sp(1) have cap1: "NEXT \<le> length (array t1)" by simp
  note ih = Cons.IH[OF rest cap1]
  have len1: "length (table_pairs t1) = (if ok then length (table_pairs t) + 1 else length (table_pairs t))"
  proof (cases ok)
    case True
    from sp(4)[OF True] have "size (mset (table_pairs t1)) = size (add_mset p (mset (table_pairs t)))"
      by simp
    with True show ?thesis by simp
  next
    case False
    from sp(5)[OF False] have "size (mset (table_pairs t1)) = size (mset (table_pairs t))"
      by simp
    with False show ?thesis by simp
  qed
  have cnt: "pairs_count t = length (table_pairs t) \<longrightarrow> pairs_count t1 = length (table_pairs t1)"
    using sp(4,5) len1 by (cases ok) simp_all
  have ms: "mset (table_pairs t1) + mset (map pair l1) =
            add_mset p (mset (table_pairs t) + mset (map pair l))"
    using sp(4,5) by (cases ok) (simp_all add: l1_def Bucket_of_def)
  have occ: "(\<forall>x \<in> set l. is_occupied x) \<longrightarrow> (\<forall>x \<in> set l1. is_occupied x)"
    by (simp add: l1_def Bucket_of_def)
  from ih sp(1,2,3) cnt ms occ show ?case by simp
qed

lemma Reconstruct_unfold:
  "Reconstruct this change_size clear =
     (case (if \<not> clear
            then foldl Reconstruct_body
                   (BucketArray_new (new_size_of this change_size) (map_hash_func this), [])
                   (elements this)
            else (BucketArray_new (new_size_of this change_size) (map_hash_func this), []))
      of (tmp_map, tmp_list) \<Rightarrow>
        this\<lparr>b_array := BucketArray_assign (b_array this) tmp_map, list := tmp_list\<rparr>)"
  by (simp add: Reconstruct_def Let_def new_size_of_def capacity_def ArraySize_def
      range_for_elements)

lemma new_size_of_ge: "INITIAL_SIZE \<le> new_size_of this cs"
  by (simp add: new_size_of_def)

lemma Reconstruct_spec:
  assumes inv: "hm_inv this"
  shows "hm_inv (Reconstruct this cs False) \<and>
         mset (elements (Reconstruct this cs False)) = mset (elements this) \<and>
         map_hash_func (Reconstruct this cs False) = map_hash_func this \<and>
         capacity (b_array (Reconstruct this cs False)) = new_size_of this cs"
proof -
  let ?n = "new_size_of this cs"
  let ?t0 = "BucketArray_new ?n (map_hash_func this) :: ('a, 'b) BucketArray"
  obtain t l where fold: "foldl Reconstruct_body (?t0, []) (elements this) = (t, l)"
    by (metis prod.exhaust)
  have n: "INITIAL_SIZE \<le> ?n" by (rule new_size_of_ge)
  then have cap0: "NEXT \<le> length (array ?t0)"
    by (simp add: INITIAL_SIZE_def NEXT_def)
  from Reconstruct_body_fold[OF fold cap0]
  have f: "length (array t) = ?n + NEXT - 1" "hash_func t = map_hash_func this"
    "placed t" "pairs_count t = length (table_pairs t)"
    "mset (table_pairs t) + mset (map pair l) = mset (elements this)"
    "\<forall>x \<in> set l. is_occupied x"
    by (simp_all add: placed_new)
  let ?m = "this\<lparr>b_array := BucketArray_assign (b_array this) t, list := l\<rparr>"
  have r: "Reconstruct this cs False = ?m"
    by (simp add: Reconstruct_unfold fold)
  from inv have h: "hash_func (b_array this) = map_hash_func this"
    and d: "distinct (map fst (elements this))"
    by (simp_all add: hm_inv_def)
  have el: "mset (elements ?m) = mset (elements this)"
    using f(5) by (simp add: elements_def)
  have pl: "placed (BucketArray_assign (b_array this) t)"
    using placed_cong[of "BucketArray_assign (b_array this) t" t] f(2,3) h by simp
  have "mset (map fst (elements ?m)) = mset (map fst (elements this))"
    using el by (metis mset_map)
  with d have dist: "distinct (map fst (elements ?m))"
    by (metis mset_eq_imp_distinct_iff)
  have "hm_inv ?m"
    unfolding hm_inv_def using h f(1,4,6) n pl dist
    by (simp add: NEXT_def INITIAL_SIZE_def)
  moreover have "capacity (b_array ?m) = ?n"
    using f(1) n by (simp add: capacity_def NEXT_def INITIAL_SIZE_def)
  ultimately show ?thesis using el by (simp add: r)
qed

lemma Reconstruct_clear:
  "Reconstruct this cs True =
     this\<lparr>b_array := BucketArray_assign (b_array this)
                        (BucketArray_new (new_size_of this cs) (map_hash_func this)),
          list := []\<rparr>"
  by (simp add: Reconstruct_unfold)

subsection \<open>Association lists with distinct keys\<close>

lemma map_of_add_mset:
  assumes m: "mset xs = add_mset (k, v) (mset ys)"
  shows "distinct (map fst xs) \<longleftrightarrow> distinct (map fst ys) \<and> k \<notin> fst ` set ys"
    and "distinct (map fst xs) \<Longrightarrow> map_of xs = (map_of ys)(k \<mapsto> v)"
proof -
  from m have m': "mset xs = mset ((k, v) # ys)" by simp
  then have "mset (map fst xs) = mset (map fst ((k, v) # ys))"
    by (metis mset_map)
  then have d: "distinct (map fst xs) \<longleftrightarrow> distinct (map fst ((k, v) # ys))"
    by (rule mset_eq_imp_distinct_iff)
  then show "distinct (map fst xs) \<longleftrightarrow> distinct (map fst ys) \<and> k \<notin> fst ` set ys"
    by auto
  assume dx: "distinct (map fst xs)"
  with d have dy: "distinct (map fst ((k, v) # ys))" by simp
  from m' have "set xs = set ((k, v) # ys)" by (rule mset_eq_setD)
  with dx dy have "map_of xs = map_of ((k, v) # ys)"
    by (simp only: map_of_inject_set)
  then show "map_of xs = (map_of ys)(k \<mapsto> v)" by simp
qed

lemma map_of_mset_cong:
  assumes "mset xs = mset ys" "distinct (map fst ys)"
  shows "distinct (map fst xs) \<and> map_of xs = map_of ys"
proof -
  from assms(1) have "mset (map fst xs) = mset (map fst ys)" by (metis mset_map)
  with assms(2) have d: "distinct (map fst xs)" by (metis mset_eq_imp_distinct_iff)
  from assms(1) have "set xs = set ys" by (rule mset_eq_setD)
  with d assms(2) show ?thesis by (simp add: map_of_inject_set)
qed

lemma map_of_remove_mset:
  assumes m: "mset xs = mset ys - {#(k, v)#}" and mem: "(k, v) \<in> set ys"
    and d: "distinct (map fst ys)"
  shows "distinct (map fst xs) \<and> map_of xs = (map_of ys)(k := None)"
proof -
  from m mem have m': "mset ys = add_mset (k, v) (mset xs)" by simp
  from map_of_add_mset[OF m'] d
  have "distinct (map fst xs)" "k \<notin> fst ` set xs" "map_of ys = (map_of xs)(k \<mapsto> v)"
    by simp_all
  moreover from this(2) have "map_of xs k = None" by (simp add: map_of_eq_None_iff)
  ultimately show ?thesis by (auto simp: fun_eq_iff)
qed

lemma map_of_replace_mset:
  assumes m: "mset xs = add_mset (k, v) (mset ys - {#(k, v0)#})" and mem: "(k, v0) \<in> set ys"
    and d: "distinct (map fst ys)"
  shows "distinct (map fst xs) \<and> map_of xs = (map_of ys)(k \<mapsto> v)"
proof -
  obtain zs where zs: "mset zs = mset ys - {#(k, v0)#}" by (metis ex_mset)
  from map_of_remove_mset[OF zs mem d]
  have z: "distinct (map fst zs)" "map_of zs = (map_of ys)(k := None)" by simp_all
  then have "k \<notin> fst ` set zs"
    by (metis fun_upd_same map_of_eq_None_iff)
  with z(1) map_of_add_mset[of xs k v zs] m zs
  have "distinct (map fst xs)" "map_of xs = (map_of zs)(k \<mapsto> v)" by simp_all
  with z(2) show ?thesis by simp
qed

subsection \<open>find\<close>

lemma lookup_Some_iff:
  "hm_inv this \<Longrightarrow> lookup this key = Some v \<longleftrightarrow> (key, v) \<in> set (elements this)"
  by (simp add: lookup_def hm_inv_def)

lemma lookup_None_iff: "lookup this key = None \<longleftrightarrow> key \<notin> fst ` set (elements this)"
  by (simp add: lookup_def map_of_eq_None_iff)

lemma hm_inv_cap: "hm_inv this \<Longrightarrow> NEXT \<le> length (array (b_array this))"
  by (simp add: hm_inv_def NEXT_def INITIAL_SIZE_def)

lemma list_find_loop_spec:
  "list_find_loop l key i = r \<Longrightarrow>
   (r = length l \<and> (\<forall>j. i \<le> j \<and> j < length l \<longrightarrow> fst (pair (l ! j)) \<noteq> key)) \<or>
   (i \<le> r \<and> r < length l \<and> fst (pair (l ! r)) = key)"
proof (induction l key i arbitrary: r rule: list_find_loop.induct)
  case (1 l key i)
  show ?case
  proof (cases "i < length l")
    case False
    with "1.prems" show ?thesis
      by (auto simp: list_find_loop.simps[of l key i])
  next
    case True
    show ?thesis
    proof (cases "fst (GetRef (l ! i)) = key")
      case eq: True
      with True "1.prems" have "r = i"
        by (simp add: list_find_loop.simps[of l key i])
      with True eq show ?thesis by (simp add: GetRef_def)
    next
      case False
      with True "1.prems" have rec: "list_find_loop l key (i + 1) = r"
        by (simp add: list_find_loop.simps[of l key i])
      from "1.IH"[OF True False rec]
      show ?thesis
      proof
        assume a: "r = length l \<and> (\<forall>j. i + 1 \<le> j \<and> j < length l \<longrightarrow> fst (pair (l ! j)) \<noteq> key)"
        have "fst (pair (l ! j)) \<noteq> key" if "i \<le> j" "j < length l" for j
        proof (cases "j = i")
          case True
          with False show ?thesis by (simp add: GetRef_def)
        next
          case False
          with that a show ?thesis by simp
        qed
        with a show ?thesis by simp
      next
        assume "i + 1 \<le> r \<and> r < length l \<and> fst (pair (l ! r)) = key"
        then show ?thesis by simp
      qed
    qed
  qed
qed

lemma HashMap_find_spec:
  assumes inv: "hm_inv this"
  shows "case lookup this key of
           None \<Rightarrow> iter_eq (HashMap_find this key) (HashMap_end this)
         | Some v \<Rightarrow> \<not> iter_eq (HashMap_find this key) (HashMap_end this) \<and>
                     valid_ref this (iter_deref (HashMap_find this key)) \<and>
                     ref_get this (iter_deref (HashMap_find this key)) = (key, v)"
proof -
  let ?b = "b_array this"
  from inv have pl: "placed ?b" by (simp add: hm_inv_def)
  note fs = Find_spec[OF hm_inv_cap[OF inv] pl, of key]
  show ?thesis
  proof (cases "Find ?b key = End ?b")
    case False
    let ?i = "Find ?b key"
    from fs False have i: "?i < length (array ?b)" "HasKey (array ?b ! ?i) key" by simp_all
    then obtain v where v: "contents ?b ! ?i = Some (key, v)"
      by (auto simp: HasKey_content contents_nth)
    with i have "(key, v) \<in> set (table_pairs ?b)"
      unfolding table_pairs_somes by (intro somes_nth[of ?i]) simp_all
    then have "lookup this key = Some v"
      using inv by (simp add: lookup_Some_iff elements_def)
    moreover have "HashMap_find this key =
        \<lparr>b_array_iter = ?i, b_array_end = End ?b, list_iter = 0, list_end = length (list this)\<rparr>"
      using False by (simp add: HashMap_find_def Let_def)
    moreover from v i have "pair (array ?b ! ?i) = (key, v)" "is_occupied (array ?b ! ?i)"
      by (simp_all add: contents_nth content_Some_iff)
    ultimately show ?thesis
      using False i by (simp add: iter_eq_def HashMap_end_def iter_deref_def valid_ref_def
          ref_get_def GetRef_def)
  next
    case True
    with fs have nt: "key \<notin> fst ` set (table_pairs ?b)" by simp
    let ?r = "list_find_loop (list this) key 0"
    have f: "HashMap_find this key =
        \<lparr>b_array_iter = End ?b, b_array_end = End ?b, list_iter = ?r, list_end = length (list this)\<rparr>"
      using True by (simp add: HashMap_find_def Let_def)
    from list_find_loop_spec[OF refl, of "list this" key 0]
    show ?thesis
    proof
      assume a: "?r = length (list this) \<and>
                 (\<forall>j. 0 \<le> j \<and> j < length (list this) \<longrightarrow> fst (pair (list this ! j)) \<noteq> key)"
      then have "key \<notin> fst ` set (map pair (list this))"
        by (auto simp: in_set_conv_nth)
      with nt have "lookup this key = None"
        by (auto simp: lookup_None_iff elements_def)
      with a show ?thesis by (simp add: f iter_eq_def HashMap_end_def)
    next
      assume a: "0 \<le> ?r \<and> ?r < length (list this) \<and> fst (pair (list this ! ?r)) = key"
      let ?v = "snd (pair (list this ! ?r))"
      from a have "pair (list this ! ?r) = (key, ?v)" by (metis prod.collapse)
      moreover from a have "pair (list this ! ?r) \<in> set (map pair (list this))" by simp
      ultimately have "lookup this key = Some ?v"
        using inv by (simp add: lookup_Some_iff elements_def)
      with a \<open>pair (list this ! ?r) = (key, ?v)\<close> show ?thesis
        by (simp add: f iter_eq_def HashMap_end_def iter_deref_def valid_ref_def ref_get_def
            GetRef_def)
    qed
  qed
qed

lemma HashMap_find_end_iff:
  "hm_inv (this :: ('k::default, 'v::default) HashMap) \<Longrightarrow> iter_eq (HashMap_find this key) (HashMap_end this) \<longleftrightarrow> lookup this key = None"
  using HashMap_find_spec[of this key] by (auto split: option.splits)

lemma HashMap_at_spec:
  "hm_inv this \<Longrightarrow>
   HashMap_at this key =
     (case lookup this key of None \<Rightarrow> Inl (out_of_range ''Key was not found'') | Some v \<Rightarrow> Inr v)"
  using HashMap_find_spec[of this key]
  by (auto simp: HashMap_at_def Let_def split: option.splits)

subsection \<open>ForceInsert and insert\<close>

lemma ForceInsert_spec:
  assumes inv: "hm_inv this" and absent: "lookup this (fst p) = None"
    and fi: "ForceInsert this p = (r, this')"
  shows "hm_inv this' \<and> mset (elements this') = add_mset p (mset (elements this)) \<and>
         valid_ref this' r \<and> ref_get this' r = p \<and> map_hash_func this' = map_hash_func this"
proof -
  define m1 where "m1 = (if LoadFactor (b_array this) > MAX_LOAD_FACTOR
                            \<or> LoadFactor (b_array this) < MIN_LOAD_FACTOR
                         then Reconstruct this True False else this)"
  have m1: "hm_inv m1" "mset (elements m1) = mset (elements this)"
    "map_hash_func m1 = map_hash_func this"
    using Reconstruct_spec[OF inv, of True] inv by (simp_all add: m1_def)
  obtain ok r0 b' where ins: "Insert (b_array m1) p = ((ok, r0), b')"
    by (metis prod.exhaust)
  from m1(1) have i1: "hash_func (b_array m1) = map_hash_func m1"
    "INITIAL_SIZE + NEXT - 1 \<le> length (array (b_array m1))" "placed (b_array m1)"
    "pairs_count (b_array m1) = length (table_pairs (b_array m1))"
    "\<forall>x \<in> set (list m1). is_occupied x" "distinct (map fst (elements m1))"
    by (simp_all add: hm_inv_def)
  from Insert_spec[OF hm_inv_cap[OF m1(1)] ins] i1(3)
  have sp: "length (array b') = length (array (b_array m1))"
    "hash_func b' = hash_func (b_array m1)" "placed b'"
    "ok \<Longrightarrow> mset (table_pairs b') = add_mset p (mset (table_pairs (b_array m1))) \<and>
            pairs_count b' = pairs_count (b_array m1) + 1 \<and>
            (\<exists>e < length (array (b_array m1)). r0 = InArray e \<and> contents b' ! e = Some p)"
    "\<not> ok \<Longrightarrow> mset (table_pairs b') = mset (table_pairs (b_array m1)) \<and>
              pairs_count b' = pairs_count (b_array m1)"
    by (auto split: if_splits)
  from absent m1(2) have nk: "fst p \<notin> fst ` set (elements m1)"
    by (metis lookup_None_iff mset_eq_setD)
  have fi': "ForceInsert this p =
      (if \<not> ok then (InList (length (list m1)), m1\<lparr>b_array := b', list := list m1 @ [Bucket_of p]\<rparr>)
       else (r0, m1\<lparr>b_array := b'\<rparr>))"
    by (simp add: ForceInsert_def Let_def m1_def[symmetric] ins)
  show ?thesis
  proof (cases ok)
    case True
    with fi fi' have res: "r = r0" "this' = m1\<lparr>b_array := b'\<rparr>" by simp_all
    from sp(4)[OF True] obtain e where e: "e < length (array (b_array m1))" "r0 = InArray e"
      "contents b' ! e = Some p"
      and ms: "mset (table_pairs b') = add_mset p (mset (table_pairs (b_array m1)))"
      and pc: "pairs_count b' = pairs_count (b_array m1) + 1"
      by auto
    from ms have "size (mset (table_pairs b')) = size (add_mset p (mset (table_pairs (b_array m1))))"
      by simp
    with pc i1(4) have cnt: "pairs_count b' = length (table_pairs b')" by simp
    have el: "mset (elements this') = add_mset p (mset (elements m1))"
      using ms by (simp add: res elements_def)
    then have el': "mset (elements this') = add_mset (fst p, snd p) (mset (elements m1))" by simp
    from map_of_add_mset(1)[OF el'] i1(6) nk have dist: "distinct (map fst (elements this'))"
      by simp
    have "hm_inv this'"
      unfolding hm_inv_def using i1 sp(1,2,3) cnt dist by (simp add: res)
    moreover from e sp(1) have "valid_ref this' r" "ref_get this' r = p"
      by (simp_all add: res valid_ref_def ref_get_def GetRef_def contents_nth content_Some_iff)
    ultimately show ?thesis using el m1(2,3) by (simp add: res)
  next
    case False
    with fi fi' have res: "r = InList (length (list m1))"
      "this' = m1\<lparr>b_array := b', list := list m1 @ [Bucket_of p]\<rparr>" by simp_all
    from sp(5)[OF False] have ms: "mset (table_pairs b') = mset (table_pairs (b_array m1))"
      and pc: "pairs_count b' = pairs_count (b_array m1)"
      by auto
    from ms have "size (mset (table_pairs b')) = size (mset (table_pairs (b_array m1)))"
      by simp
    with pc i1(4) have cnt: "pairs_count b' = length (table_pairs b')" by simp
    have el: "mset (elements this') = add_mset p (mset (elements m1))"
      using ms by (simp add: res elements_def Bucket_of_def)
    then have el': "mset (elements this') = add_mset (fst p, snd p) (mset (elements m1))" by simp
    from map_of_add_mset(1)[OF el'] i1(6) nk have dist: "distinct (map fst (elements this'))"
      by simp
    have "hm_inv this'"
      unfolding hm_inv_def using i1 sp(1,2,3) cnt dist by (simp add: res Bucket_of_def)
    moreover have "valid_ref this' r" "ref_get this' r = p"
      by (simp_all add: res valid_ref_def ref_get_def GetRef_def Bucket_of_def)
    ultimately show ?thesis using el m1(2,3) by (simp add: res)
  qed
qed

lemma ForceInsert_lookup:
  assumes inv: "hm_inv this" and absent: "lookup this (fst p) = None"
    and fi: "ForceInsert this p = (r, this')"
  shows "lookup this' = (lookup this)(fst p \<mapsto> snd p)"
proof -
  from ForceInsert_spec[OF assms]
  have "hm_inv this'" "mset (elements this') = add_mset (fst p, snd p) (mset (elements this))"
    by simp_all
  with map_of_add_mset(2)[OF this(2)] show ?thesis
    by (simp add: lookup_def hm_inv_def)
qed

lemma HashMap_insert_spec:
  assumes inv: "hm_inv this"
  shows "hm_inv (HashMap_insert this p) \<and>
         map_hash_func (HashMap_insert this p) = map_hash_func this \<and>
         (case lookup this (fst p) of
            None \<Rightarrow> lookup (HashMap_insert this p) = (lookup this)(fst p \<mapsto> snd p)
          | Some v \<Rightarrow> HashMap_insert this p = this)"
proof (cases "lookup this (fst p)")
  case None
  obtain r m' where fi: "ForceInsert this p = (r, m')" by (metis prod.exhaust)
  from None have "HashMap_insert this p = m'"
    by (simp add: HashMap_insert_def HashMap_find_end_iff[OF inv] fi)
  with ForceInsert_spec[OF inv None fi] ForceInsert_lookup[OF inv None fi] None
  show ?thesis by simp
next
  case (Some v)
  then have "HashMap_insert this p = this"
    by (simp add: HashMap_insert_def HashMap_find_end_iff[OF inv])
  with Some inv show ?thesis by simp
qed

subsection \<open>operator[]\<close>

lemma HashMap_index_spec:
  assumes inv: "hm_inv this" and ix: "HashMap_index this key = (r, this')"
  shows "hm_inv this' \<and> map_hash_func this' = map_hash_func this \<and> valid_ref this' r \<and>
         (case lookup this key of
            None \<Rightarrow> lookup this' = (lookup this)(key \<mapsto> default) \<and> ref_get this' r = (key, default)
          | Some v \<Rightarrow> this' = this \<and> ref_get this' r = (key, v))"
proof (cases "lookup this key")
  case None
  then have "ForceInsert this (key, default) = (r, this')"
    using ix by (simp add: HashMap_index_def HashMap_find_end_iff[OF inv] Let_def)
  from ForceInsert_spec[OF inv _ this] ForceInsert_lookup[OF inv _ this] None
  show ?thesis by simp
next
  case (Some v)
  then have "r = iter_deref (HashMap_find this key)" "this' = this"
    using ix by (auto simp: HashMap_index_def HashMap_find_end_iff[OF inv] Let_def)
  with HashMap_find_spec[OF inv, of key] Some inv show ?thesis by simp
qed

lemma set_second_simps [simp]:
  "is_occupied (set_second b v) = is_occupied b"
  "pair (set_second b v) = (fst (pair b), v)"
  by (simp_all add: set_second_def)

lemma ref_assign_second_spec:
  assumes inv: "hm_inv this" and vr: "valid_ref this r" and rg: "ref_get this r = (key, v0)"
  shows "hm_inv (ref_assign_second this r v) \<and>
         map_hash_func (ref_assign_second this r v) = map_hash_func this \<and>
         lookup (ref_assign_second this r v) = (lookup this)(key \<mapsto> v)"
proof -
  let ?b = "b_array this"
  from inv have i: "hash_func ?b = map_hash_func this"
    "INITIAL_SIZE + NEXT - 1 \<le> length (array ?b)" "placed ?b"
    "pairs_count ?b = length (table_pairs ?b)"
    "\<forall>x \<in> set (list this). is_occupied x" "distinct (map fst (elements this))"
    by (simp_all add: hm_inv_def)
  show ?thesis
  proof (cases r)
    case FakePair
    with vr show ?thesis by (simp add: valid_ref_def)
  next
    case (InArray n)
    with vr rg have n: "n < length (array ?b)" "is_occupied (array ?b ! n)"
      "pair (array ?b ! n) = (key, v0)"
      by (simp_all add: valid_ref_def ref_get_def GetRef_def)
    then have c0: "contents ?b ! n = Some (key, v0)"
      by (simp add: contents_nth content_Some_iff)
    let ?b' = "?b\<lparr>array := (array ?b)[n := set_second (array ?b ! n) v]\<rparr>"
    have res: "ref_assign_second this r v = this\<lparr>b_array := ?b'\<rparr>"
      by (simp add: ref_assign_second_def InArray)
    have "content (set_second (array ?b ! n) v) = Some (key, v)"
      using n by (simp add: content_def)
    then have c: "contents ?b' = (contents ?b)[n := Some (key, v)]"
      by (simp add: contents_def map_update)
    have ms: "mset (table_pairs ?b') = add_mset (key, v) (mset (table_pairs ?b) - {#(key, v0)#})"
      unfolding table_pairs_somes c using somes_update_Some_Some[of n "contents ?b"] n c0 by simp
    have mem: "(key, v0) \<in> set (table_pairs ?b)"
      unfolding table_pairs_somes by (rule somes_nth[of n]) (use n c0 in simp_all)
    have "size (mset (table_pairs ?b')) = size (mset (table_pairs ?b))"
      unfolding ms using mem by (simp add: size_Diff_singleton) (cases "table_pairs ?b", auto)
    then have cnt: "pairs_count ?b' = length (table_pairs ?b')" using i(4) by simp
    have gi: "\<And>k. GetIndex ?b' k = GetIndex ?b k"
      by (rule GetIndex_cong) simp_all
    have pl: "placed ?b'"
      unfolding placed_contents c gi
    proof (intro allI impI)
      fix j q
      assume j: "j < length (array ?b')" and q: "(contents ?b)[n := Some (key, v)] ! j = Some q"
      show "GetIndex ?b (fst q) \<le> j \<and> j < GetIndex ?b (fst q) + NEXT"
      proof (cases "j = n")
        case True
        with q n have "fst q = key" by auto
        with placedD[OF i(3) n(1) c0] True show ?thesis by simp
      next
        case False
        with q have "contents ?b ! j = Some q" by simp
        with placedD[OF i(3), of j q] j show ?thesis by simp
      qed
    qed
    have el: "mset (elements (this\<lparr>b_array := ?b'\<rparr>)) =
              add_mset (key, v) (mset (elements this) - {#(key, v0)#})"
      using ms mem by (simp add: elements_def)
    from mem have mem': "(key, v0) \<in> set (elements this)" by (simp add: elements_def)
    from map_of_replace_mset[OF el mem' i(6)]
    have d: "distinct (map fst (elements (this\<lparr>b_array := ?b'\<rparr>)))"
      "map_of (elements (this\<lparr>b_array := ?b'\<rparr>)) = (map_of (elements this))(key \<mapsto> v)"
      by simp_all
    have "hm_inv (this\<lparr>b_array := ?b'\<rparr>)"
      unfolding hm_inv_def using i(1,2,5) pl cnt d(1) by simp
    with d(2) show ?thesis by (simp add: res lookup_def)
  next
    case (InList n)
    with vr rg have n: "n < length (list this)" "pair (list this ! n) = (key, v0)"
      by (simp_all add: valid_ref_def ref_get_def GetRef_def)
    let ?l' = "(list this)[n := set_second (list this ! n) v]"
    have res: "ref_assign_second this r v = this\<lparr>list := ?l'\<rparr>"
      by (simp add: ref_assign_second_def InList)
    have mp: "map pair ?l' = (map pair (list this))[n := (key, v)]"
      using n by (simp add: map_update)
    have ms: "mset (map pair ?l') = add_mset (key, v) (mset (map pair (list this)) - {#(key, v0)#})"
      unfolding mp using n mset_update[of n "map pair (list this)" "(key, v)"] by simp
    have mem: "(key, v0) \<in> set (map pair (list this))"
      using n by (metis length_map nth_map nth_mem)
    have el: "mset (elements (this\<lparr>list := ?l'\<rparr>)) =
              add_mset (key, v) (mset (elements this) - {#(key, v0)#})"
    proof -
      have "mset (table_pairs ?b) + (mset (map pair (list this)) - {#(key, v0)#}) =
            mset (table_pairs ?b) + mset (map pair (list this)) - {#(key, v0)#}"
        using mem by (metis in_multiset_in_set multi_member_split union_single_eq_member
            add_mset_remove_trivial union_mset_add_mset_right)
      then show ?thesis using ms by (simp add: elements_def)
    qed
    from mem have mem': "(key, v0) \<in> set (elements this)" by (simp add: elements_def)
    from map_of_replace_mset[OF el mem' i(6)]
    have d: "distinct (map fst (elements (this\<lparr>list := ?l'\<rparr>)))"
      "map_of (elements (this\<lparr>list := ?l'\<rparr>)) = (map_of (elements this))(key \<mapsto> v)"
      by simp_all
    have occ: "\<forall>x \<in> set ?l'. is_occupied x"
    proof
      fix x assume "x \<in> set ?l'"
      then have "x = set_second (list this ! n) v \<or> x \<in> set (list this)"
        using set_update_subset_insert[of "list this" n "set_second (list this ! n) v"] by auto
      with i(5) n show "is_occupied x" by auto
    qed
    have "hm_inv (this\<lparr>list := ?l'\<rparr>)"
      unfolding hm_inv_def using i(1,2,3,4) occ d(1) by simp
    with d(2) show ?thesis by (simp add: res lookup_def)
  qed
qed

lemma HashMap_index_assign_spec:
  assumes inv: "hm_inv this"
  shows "hm_inv (HashMap_index_assign this key v) \<and>
         map_hash_func (HashMap_index_assign this key v) = map_hash_func this \<and>
         lookup (HashMap_index_assign this key v) = (lookup this)(key \<mapsto> v)"
proof -
  obtain r m' where ix: "HashMap_index this key = (r, m')" by (metis prod.exhaust)
  from HashMap_index_spec[OF inv ix]
  have s: "hm_inv m'" "map_hash_func m' = map_hash_func this" "valid_ref m' r"
    "\<exists>v0. ref_get m' r = (key, v0)"
    "lookup m' = (lookup this)(key \<mapsto> default) \<or> m' = this"
    by (auto split: option.splits)
  then obtain v0 where v0: "ref_get m' r = (key, v0)" by auto
  from ref_assign_second_spec[OF s(1) s(3) v0, of v] s(2,5)
  show ?thesis by (auto simp: HashMap_index_assign_def ix)
qed

subsection \<open>erase, clear, the constructor\<close>

lemma list_erase_loop_spec:
  "list_erase_loop l key i = l' \<Longrightarrow>
   (l' = l \<and> (\<forall>j. i \<le> j \<and> j < length l \<longrightarrow> fst (pair (l ! j)) \<noteq> key)) \<or>
   (\<exists>r. i \<le> r \<and> r < length l \<and> fst (pair (l ! r)) = key \<and> l' = take r l @ drop (Suc r) l)"
proof (induction l key i arbitrary: l' rule: list_erase_loop.induct)
  case (1 l key i)
  show ?case
  proof (cases "i < length l")
    case False
    with "1.prems" show ?thesis
      by (auto simp: list_erase_loop.simps[of l key i])
  next
    case True
    show ?thesis
    proof (cases "fst (GetRef (l ! i)) = key")
      case eq: True
      with True "1.prems" have "l' = take i l @ drop (Suc i) l"
        by (simp add: list_erase_loop.simps[of l key i])
      with True eq show ?thesis by (auto simp: GetRef_def)
    next
      case False
      with True "1.prems" have rec: "list_erase_loop l key (i + 1) = l'"
        by (simp add: list_erase_loop.simps[of l key i])
      from "1.IH"[OF True False rec]
      show ?thesis
      proof
        assume a: "l' = l \<and> (\<forall>j. i + 1 \<le> j \<and> j < length l \<longrightarrow> fst (pair (l ! j)) \<noteq> key)"
        have "fst (pair (l ! j)) \<noteq> key" if "i \<le> j" "j < length l" for j
        proof (cases "j = i")
          case True
          with False show ?thesis by (simp add: GetRef_def)
        next
          case False
          with that a show ?thesis by simp
        qed
        with a show ?thesis by simp
      next
        assume "\<exists>r. i + 1 \<le> r \<and> r < length l \<and> fst (pair (l ! r)) = key \<and>
                    l' = take r l @ drop (Suc r) l"
        then obtain r where "i + 1 \<le> r" "r < length l" "fst (pair (l ! r)) = key"
          "l' = take r l @ drop (Suc r) l" by blast
        then have "i \<le> r \<and> r < length l \<and> fst (pair (l ! r)) = key \<and>
                   l' = take r l @ drop (Suc r) l" by simp
        then show ?thesis by blast
      qed
    qed
  qed
qed

lemma HashMap_erase_spec:
  assumes inv: "hm_inv this"
  shows "hm_inv (HashMap_erase this key) \<and>
         map_hash_func (HashMap_erase this key) = map_hash_func this \<and>
         lookup (HashMap_erase this key) = (lookup this)(key := None) \<and>
         (lookup this key = None \<longrightarrow> HashMap_erase this key = this)"
proof -
  let ?b = "b_array this"
  from inv have i: "hash_func ?b = map_hash_func this"
    "INITIAL_SIZE + NEXT - 1 \<le> length (array ?b)" "placed ?b"
    "pairs_count ?b = length (table_pairs ?b)"
    "\<forall>x \<in> set (list this). is_occupied x" "distinct (map fst (elements this))"
    by (simp_all add: hm_inv_def)
  obtain erased b' where er: "Erase ?b key = (erased, b')" by (metis prod.exhaust)
  from Erase_spec[OF hm_inv_cap[OF inv] i(3,4) er]
  have sp: "length (array b') = length (array ?b)" "hash_func b' = hash_func ?b"
    "placed b'" "pairs_count b' = length (table_pairs b')"
    "erased \<Longrightarrow> \<exists>v. (key, v) \<in> set (table_pairs ?b) \<and>
                     mset (table_pairs b') = mset (table_pairs ?b) - {#(key, v)#}"
    "\<not> erased \<Longrightarrow> b' = ?b \<and> key \<notin> fst ` set (table_pairs ?b)"
    by (auto split: if_splits)
  show ?thesis
  proof (cases erased)
    case True
    then have res: "HashMap_erase this key = this\<lparr>b_array := b'\<rparr>"
      by (simp add: HashMap_erase_def er)
    from sp(5)[OF True] obtain v where v: "(key, v) \<in> set (table_pairs ?b)"
      "mset (table_pairs b') = mset (table_pairs ?b) - {#(key, v)#}" by blast
    have el: "mset (elements (this\<lparr>b_array := b'\<rparr>)) = mset (elements this) - {#(key, v)#}"
      using v by (simp add: elements_def)
    from v(1) have mem: "(key, v) \<in> set (elements this)" by (simp add: elements_def)
    from map_of_remove_mset[OF el mem i(6)]
    have d: "distinct (map fst (elements (this\<lparr>b_array := b'\<rparr>)))"
      "map_of (elements (this\<lparr>b_array := b'\<rparr>)) = (map_of (elements this))(key := None)"
      by simp_all
    have "hm_inv (this\<lparr>b_array := b'\<rparr>)"
      unfolding hm_inv_def using i(1,2,5) sp(1-4) d(1) by simp
    moreover from mem inv have "lookup this key \<noteq> None"
      by (simp add: lookup_None_iff) force
    ultimately show ?thesis using d(2) by (auto simp: res lookup_def)
  next
    case False
    from sp(6)[OF False] have b': "b' = ?b" and nt: "key \<notin> fst ` set (table_pairs ?b)"
      by simp_all
    let ?l' = "list_erase_loop (list this) key 0"
    have res: "HashMap_erase this key = this\<lparr>list := ?l'\<rparr>"
      using False by (simp add: HashMap_erase_def er b')
    from list_erase_loop_spec[OF refl, of "list this" key 0]
    show ?thesis
    proof
      assume a: "?l' = list this \<and>
                 (\<forall>j. 0 \<le> j \<and> j < length (list this) \<longrightarrow> fst (pair (list this ! j)) \<noteq> key)"
      then have "key \<notin> fst ` set (map pair (list this))"
        by (auto simp: in_set_conv_nth)
      with nt have none: "lookup this key = None"
        by (auto simp: lookup_None_iff elements_def)
      from a have "HashMap_erase this key = this" by (simp add: res)
      with none inv show ?thesis by (simp add: fun_upd_idem)
    next
      assume "\<exists>r. 0 \<le> r \<and> r < length (list this) \<and> fst (pair (list this ! r)) = key \<and>
                  ?l' = take r (list this) @ drop (Suc r) (list this)"
      then obtain r where r: "r < length (list this)" "fst (pair (list this ! r)) = key"
        "?l' = take r (list this) @ drop (Suc r) (list this)" by blast
      let ?v = "snd (pair (list this ! r))"
      from r(2) have pv: "pair (list this ! r) = (key, ?v)" by (metis prod.collapse)
      have "list this = take r (list this) @ list this ! r # drop (Suc r) (list this)"
        using r(1) by (rule id_take_nth_drop)
      then have "mset (list this) = add_mset (list this ! r) (mset ?l')"
        unfolding r(3) by (metis mset.simps(2) mset_append union_mset_add_mset_right)
      then have "mset (map pair (list this)) = add_mset (key, ?v) (mset (map pair ?l'))"
        using pv by (metis image_mset_add_mset mset_map)
      then have el0: "mset (elements this) = add_mset (key, ?v) (mset (elements (this\<lparr>list := ?l'\<rparr>)))"
        by (simp add: elements_def)
      then have el: "mset (elements (this\<lparr>list := ?l'\<rparr>)) = mset (elements this) - {#(key, ?v)#}"
        by simp
      from el0 have mem: "(key, ?v) \<in> set (elements this)"
        by (metis mset_eq_setD list.set_intros(1) mset.simps(2))
      from map_of_remove_mset[OF el mem i(6)]
      have d: "distinct (map fst (elements (this\<lparr>list := ?l'\<rparr>)))"
        "map_of (elements (this\<lparr>list := ?l'\<rparr>)) = (map_of (elements this))(key := None)"
        by simp_all
      have "set ?l' \<subseteq> set (list this)"
        unfolding r(3) by (auto dest: in_set_takeD in_set_dropD)
      with i(5) have occ: "\<forall>x \<in> set ?l'. is_occupied x" by blast
      have "hm_inv (this\<lparr>list := ?l'\<rparr>)"
        unfolding hm_inv_def using i(1-4) occ d(1) by simp
      moreover from mem inv have "lookup this key \<noteq> None"
        by (simp add: lookup_None_iff) force
      ultimately show ?thesis using d(2) by (auto simp: res lookup_def)
    qed
  qed
qed

lemma hm_inv_new: "hm_inv (HashMap_new hash)"
  by (simp add: hm_inv_def HashMap_new_def placed_new elements_def INITIAL_SIZE_def NEXT_def)

lemma lookup_new: "lookup (HashMap_new hash) = Map.empty"
  by (simp add: lookup_def HashMap_new_def elements_def)

lemma HashMap_clear_spec:
  assumes inv: "hm_inv this"
  shows "hm_inv (HashMap_clear this) \<and> map_hash_func (HashMap_clear this) = map_hash_func this \<and>
         lookup (HashMap_clear this) = Map.empty"
proof -
  from inv have h: "hash_func (b_array this) = map_hash_func this" by (simp add: hm_inv_def)
  let ?t = "BucketArray_new (new_size_of this False) (map_hash_func this) :: ('a, 'b) BucketArray"
  have "placed (BucketArray_assign (b_array this) ?t)"
    using placed_cong[of "BucketArray_assign (b_array this) ?t" ?t] h by (simp add: placed_new)
  then show ?thesis
    using h new_size_of_ge[of this False]
    by (simp add: HashMap_clear_def Reconstruct_clear hm_inv_def elements_def lookup_def
        INITIAL_SIZE_def NEXT_def)
qed

theorem reachable_inv: "reachable m \<Longrightarrow> hm_inv m"
proof (induction rule: reachable.induct)
  case (r_new hash)
  show ?case by (rule hm_inv_new)
next
  case (r_insert m p)
  with HashMap_insert_spec[of m p] show ?case by simp
next
  case (r_erase m key)
  with HashMap_erase_spec[of m key] show ?case by simp
next
  case (r_index m key)
  with HashMap_index_spec[of m key "fst (HashMap_index m key)" "snd (HashMap_index m key)"]
  show ?case by simp
next
  case (r_index_assign m key v)
  with HashMap_index_assign_spec[of m key v] show ?case by simp
next
  case (r_clear m)
  with HashMap_clear_spec[of m] show ?case by simp
qed

subsection \<open>ForceInsert after the load check\<close>

lemma ForceInsert_load_checked:
  "ForceInsert this p =
     (case Insert (b_array (load_checked this)) p of
        ((success, ref), b') \<Rightarrow>
          if \<not> success
          then (InList (length (list (load_checked this))),
                (load_checked this)\<lparr>b_array := b', list := list (load_checked this) @ [Bucket_of p]\<rparr>)
          else (ref, (load_checked this)\<lparr>b_array := b'\<rparr>))"
  by (simp only: ForceInsert_def Let_def load_checked_def)

lemma hm_inv_load_checked:
  "hm_inv this \<Longrightarrow> hm_inv (load_checked this) \<and> lookup (load_checked this) = lookup this"
proof -
  assume inv: "hm_inv this"
  from Reconstruct_spec[OF inv, of True]
  have "hm_inv (Reconstruct this True False)"
    "mset (elements (Reconstruct this True False)) = mset (elements this)"
    by simp_all
  with map_of_mset_cong[OF this(2)] inv show ?thesis
    by (simp add: load_checked_def lookup_def hm_inv_def)
qed

subsection \<open>When Insert succeeds\<close>

lemma filter_all: "(\<And>x. x \<in> set ys \<Longrightarrow> P x) \<Longrightarrow> filter P ys = ys"
  by (induction ys) simp_all

lemma occupied_range_le:
  assumes occ: "\<And>j. lo \<le> j \<Longrightarrow> j < hi \<Longrightarrow> P (xs ! j)" and lh: "lo \<le> hi" and hl: "hi \<le> length xs"
  shows "hi - lo \<le> length (filter P xs)"
proof -
  let ?mid = "take (hi - lo) (drop lo xs)"
  have fxs: "filter P xs = filter P (take lo xs) @ filter P ?mid
                @ filter P (drop (hi - lo) (drop lo xs))"
    by (metis append_take_drop_id filter_append)
  have "P x" if "x \<in> set ?mid" for x
  proof -
    from that obtain i where i: "i < length ?mid" "x = ?mid ! i"
      by (auto simp: in_set_conv_nth)
    with lh hl have "i < hi - lo" by simp
    with i lh hl have "x = xs ! (lo + i)" by simp
    with occ[of "lo + i"] \<open>i < hi - lo\<close> show ?thesis by simp
  qed
  then have "filter P ?mid = ?mid" by (rule filter_all)
  moreover have "length ?mid = hi - lo" using lh hl by simp
  moreover have "length (filter P ?mid) \<le> length (filter P xs)"
    unfolding fxs by simp
  ultimately show ?thesis by simp
qed

lemma occupied_below_le:
  assumes "\<And>j. j < length xs \<Longrightarrow> P (xs ! j) \<Longrightarrow> j < n"
  shows "length (filter P xs) \<le> n"
proof -
  have "\<not> P x" if "x \<in> set (drop n xs)" for x
  proof
    assume p: "P x"
    from that obtain i where i: "i < length (drop n xs)" "x = drop n xs ! i"
      by (auto simp: in_set_conv_nth)
    then have "n + i < length xs" "x = xs ! (n + i)" by simp_all
    with assms[of "n + i"] p show False by simp
  qed
  then have "filter P (drop n xs) = []" by (simp add: filter_empty_conv)
  moreover have "filter P xs = filter P (take n xs) @ filter P (drop n xs)"
    by (metis append_take_drop_id filter_append)
  ultimately have "length (filter P xs) = length (filter P (take n xs))" by simp
  also have "\<dots> \<le> length (take n xs)" by (rule length_filter_le)
  also have "\<dots> \<le> n" by simp
  finally show ?thesis .
qed

lemma length_table_pairs: "length (table_pairs this) = length (filter is_occupied (array this))"
  by (simp add: table_pairs_def)

lemma Insert_fails_full:
  assumes cap: "NEXT \<le> length (array this)" and fail: "\<not> fst (fst (Insert this p))"
  shows "NEXT \<le> length (table_pairs this)"
proof -
  define arr_index where "arr_index = GetIndex this (fst p)"
  define e where "e = scan_empty this arr_index"
  from GetIndex_window[OF cap, of "fst p"] have ai: "arr_index + NEXT \<le> length (array this)"
    by (simp add: arr_index_def)
  from scan_empty_spec[OF e_def[symmetric]] ai
  have sc: "arr_index \<le> e" "e \<le> length (array this)"
    "\<And>j. arr_index \<le> j \<Longrightarrow> j < e \<Longrightarrow> is_occupied (array this ! j)"
    by auto
  have "arr_index + NEXT \<le> e"
  proof (cases "e = length (array this)")
    case True
    with ai show ?thesis by simp
  next
    case False
    show ?thesis
    proof (rule ccontr)
      assume "\<not> arr_index + NEXT \<le> e"
      then have "while_displace this arr_index e True [] = (this, e, True, [])"
        by (simp add: while_displace.simps[of this arr_index e True "[]"])
      with False have "fst (fst (Insert this p))"
        by (simp add: Insert_def Insert_logged_def Let_def arr_index_def[symmetric]
            e_def[symmetric])
      with fail show False by simp
    qed
  qed
  then have "NEXT \<le> e - arr_index" by simp
  also have "e - arr_index \<le> length (filter is_occupied (array this))"
    by (rule occupied_range_le) (use sc in simp_all)
  finally show ?thesis by (simp add: length_table_pairs)
qed

lemma Insert_succeeds:
  "NEXT \<le> length (array this) \<Longrightarrow> length (table_pairs this) < NEXT \<Longrightarrow>
   fst (fst (Insert this p))"
  using Insert_fails_full[of this p] by auto

lemma Insert_length_table_pairs:
  assumes cap: "NEXT \<le> length (array this)"
  shows "length (table_pairs (snd (Insert this p))) =
         (if fst (fst (Insert this p)) then length (table_pairs this) + 1
          else length (table_pairs this))"
proof -
  obtain ok r t' where ins: "Insert this p = ((ok, r), t')" by (metis prod.exhaust)
  from Insert_spec[OF cap ins]
  have "mset (table_pairs t') =
        (if ok then add_mset p (mset (table_pairs this)) else mset (table_pairs this))"
    by (auto split: if_splits)
  then have "size (mset (table_pairs t')) =
        size (if ok then add_mset p (mset (table_pairs this)) else mset (table_pairs this))"
    by simp
  then show ?thesis by (simp add: ins split: if_splits)
qed

text \<open>When every key has the ideal index 0, the occupied buckets lie in one window.\<close>

lemma one_window_le:
  assumes pl: "placed this" and z: "\<And>k. GetIndex this k = 0"
  shows "length (table_pairs this) \<le> NEXT"
  unfolding length_table_pairs
proof (rule occupied_below_le)
  fix j
  assume "j < length (array this)" "is_occupied (array this ! j)"
  with pl z show "j < NEXT" by (auto simp: placed_def)
qed

lemma Insert_fails_one_window:
  assumes cap: "NEXT \<le> length (array this)" and pl: "placed this"
    and z: "\<And>k. hash_func this k = 0" and full: "length (table_pairs this) = NEXT"
  shows "\<not> fst (fst (Insert this p))"
proof
  assume ok: "fst (fst (Insert this p))"
  obtain r t' where ins: "Insert this p = ((True, r), t')"
    using ok by (metis (full_types) fst_conv prod.exhaust)
  from Insert_spec[OF cap ins] pl
  have h: "hash_func t' = hash_func this" and pl': "placed t'" by simp_all
  have "\<And>k. GetIndex t' k = 0" by (simp add: GetIndex_def h z)
  from one_window_le[OF pl' this] have "length (table_pairs t') \<le> NEXT" .
  moreover from Insert_length_table_pairs[OF cap, of p] full
  have "length (table_pairs t') = NEXT + 1" by (simp add: ins)
  ultimately show False by simp
qed

subsection \<open>Reconstruct of at most NEXT pairs\<close>

lemma Reconstruct_body_fold_small:
  "foldl Reconstruct_body (t, l) ps = (t', l') \<Longrightarrow> NEXT \<le> length (array t) \<Longrightarrow>
   length (table_pairs t) + length ps \<le> NEXT \<Longrightarrow>
   l' = l \<and> length (table_pairs t') = length (table_pairs t) + length ps"
proof (induction ps arbitrary: t l)
  case Nil
  then show ?case by simp
next
  case (Cons p ps)
  obtain ok r t1 where ins: "Insert t p = ((ok, r), t1)" by (metis prod.exhaust)
  from Cons.prems(3) have "length (table_pairs t) < NEXT" by simp
  from Insert_succeeds[OF Cons.prems(2) this, of p] ins have ok: ok by simp
  then have step: "Reconstruct_body (t, l) p = (t1, l)"
    by (simp add: Reconstruct_body_def ins)
  from Insert_spec[OF Cons.prems(2) ins] have len: "length (array t1) = length (array t)"
    by simp
  from Insert_length_table_pairs[OF Cons.prems(2), of p] ok
  have tp: "length (table_pairs t1) = length (table_pairs t) + 1" by (simp add: ins)
  from Cons.prems(1) have rest: "foldl Reconstruct_body (t1, l) ps = (t', l')"
    by (simp add: step)
  from Cons.IH[OF rest] Cons.prems(2,3) len tp show ?case by simp
qed

lemma HashMap_size_elements: "hm_inv this \<Longrightarrow> HashMap_size this = length (elements this)"
  by (auto simp: HashMap_size_def PairsCount_def hm_inv_def elements_def)

lemma Reconstruct_small:
  assumes inv: "hm_inv this" and small: "HashMap_size this \<le> NEXT"
  shows "list (Reconstruct this cs False) = [] \<and>
         pairs_count (b_array (Reconstruct this cs False)) = HashMap_size this"
proof -
  let ?t0 = "BucketArray_new (new_size_of this cs) (map_hash_func this) :: ('a, 'b) BucketArray"
  obtain t l where fold: "foldl Reconstruct_body (?t0, []) (elements this) = (t, l)"
    by (metis prod.exhaust)
  have cap0: "NEXT \<le> length (array ?t0)"
    using new_size_of_ge[of this cs] by (simp add: INITIAL_SIZE_def NEXT_def)
  from small have "length (table_pairs ?t0) + length (elements this) \<le> NEXT"
    by (simp add: HashMap_size_elements[OF inv])
  from Reconstruct_body_fold_small[OF fold cap0 this]
  have l: "l = []" and tp: "length (table_pairs t) = length (elements this)" by simp_all
  from Reconstruct_body_fold[OF fold cap0]
  have "pairs_count t = length (table_pairs t)" by simp
  with l tp show ?thesis
    by (simp add: Reconstruct_unfold fold HashMap_size_elements[OF inv])
qed

subsection \<open>The load factor as a comparison of natural numbers\<close>

lemma LoadFactor_less_MIN:
  "0 < length (array this) \<Longrightarrow>
   LoadFactor this < MIN_LOAD_FACTOR \<longleftrightarrow> 10 * pairs_count this < length (array this)"
proof -
  assume pos: "0 < length (array this)"
  have "(of_nat (pairs_count this) :: rat) / of_nat (length (array this)) < 1 / 10 \<longleftrightarrow>
        (of_nat (10 * pairs_count this) :: rat) < of_nat (length (array this))"
    using pos by (simp add: field_simps)
  then show ?thesis
    unfolding LoadFactor_def MIN_LOAD_FACTOR_def by (simp only: of_nat_less_iff)
qed

lemma LoadFactor_greater_MAX:
  "0 < length (array this) \<Longrightarrow>
   MAX_LOAD_FACTOR < LoadFactor this \<longleftrightarrow> length (array this) < 2 * pairs_count this"
proof -
  assume pos: "0 < length (array this)"
  have "1 / 2 < (of_nat (pairs_count this) :: rat) / of_nat (length (array this)) \<longleftrightarrow>
        (of_nat (length (array this)) :: rat) < of_nat (2 * pairs_count this)"
    using pos by (simp add: field_simps)
  then show ?thesis
    unfolding LoadFactor_def MAX_LOAD_FACTOR_def by (simp only: of_nat_less_iff)
qed

subsection \<open>Steps of the constant-hash map\<close>

lemma shapeD:
  assumes "shape m c t ks D"
  shows "hm_inv m" "map_hash_func m = zero_hash" "hash_func (b_array m) = zero_hash"
    "length (array (b_array m)) = c + NEXT - 1" "pairs_count (b_array m) = t"
    "length (table_pairs (b_array m)) = t" "map (\<lambda>b. fst (pair b)) (list m) = ks"
    "length (list m) = length ks" "dom (lookup m) = D" "HashMap_size m = t + length ks"
    "NEXT \<le> length (array (b_array m))" "placed (b_array m)"
proof -
  from assms show inv: "hm_inv m" and h: "map_hash_func m = zero_hash"
    and "length (array (b_array m)) = c + NEXT - 1" and t: "pairs_count (b_array m) = t"
    and ks: "map (\<lambda>b. fst (pair b)) (list m) = ks" and "dom (lookup m) = D"
    by (auto simp: shape_def)
  from inv h show "hash_func (b_array m) = zero_hash" by (auto simp: hm_inv_def)
  from inv t show "length (table_pairs (b_array m)) = t" by (auto simp: hm_inv_def)
  from ks show l: "length (list m) = length ks" by (metis length_map)
  from t l show "HashMap_size m = t + length ks"
    by (simp add: HashMap_size_def PairsCount_def)
  from inv show "NEXT \<le> length (array (b_array m))" by (rule hm_inv_cap)
  from inv show "placed (b_array m)" by (auto simp: hm_inv_def)
qed

lemma shape_new: "shape (HashMap_new zero_hash) INITIAL_SIZE 0 [] {}"
  unfolding shape_def
  by (simp add: hm_inv_new lookup_new) (simp add: HashMap_new_def)

lemma shape_Reconstruct:
  assumes sh: "shape m c t ks D" and small: "t + length ks \<le> NEXT" and c: "0 < c"
  shows "shape (Reconstruct m True False)
           (max (if 10 * t < c + NEXT - 1 then c div 2 else c * 2) INITIAL_SIZE)
           (t + length ks) [] D"
proof -
  note d = shapeD[OF sh]
  let ?r = "Reconstruct m True False"
  from Reconstruct_spec[OF d(1), of True]
  have inv: "hm_inv ?r" and el: "mset (elements ?r) = mset (elements m)"
    and h: "map_hash_func ?r = map_hash_func m"
    and cap: "capacity (b_array ?r) = new_size_of m True"
    by simp_all
  from d(4) c have capm: "capacity (b_array m) = c" by (simp add: capacity_def NEXT_def)
  from d(4) c have pos: "0 < length (array (b_array m))" by (simp add: NEXT_def)
  have ns: "new_size_of m True = max (if 10 * t < c + NEXT - 1 then c div 2 else c * 2) INITIAL_SIZE"
    by (simp add: new_size_of_def capm LoadFactor_less_MIN[OF pos] d(4,5))
  from hm_inv_cap[OF inv] cap have len: "length (array (b_array ?r)) = new_size_of m True + NEXT - 1"
    by (simp add: capacity_def NEXT_def)
  from small d(10) have "HashMap_size m \<le> NEXT" by simp
  from Reconstruct_small[OF d(1) this, of True] d(10)
  have l: "list ?r = []" and pc: "pairs_count (b_array ?r) = t + length ks" by simp_all
  from map_of_mset_cong[OF el] d(1) have "lookup ?r = lookup m"
    by (simp add: lookup_def hm_inv_def)
  with d(9) have dm: "dom (lookup ?r) = D" by simp
  show ?thesis
    unfolding shape_def using inv h d(2) len pc l dm by (simp add: ns)
qed

lemma shape_insert:
  assumes inv: "hm_inv m" and absent: "lookup m k = None" and D: "dom (lookup m) = D"
    and sh: "shape (load_checked m) c t ks D'" and t: "t \<le> NEXT"
  shows "shape (HashMap_insert m (k, v)) c (if t < NEXT then t + 1 else t)
           (if t < NEXT then ks else ks @ [k]) (insert k D)"
proof -
  let ?m1 = "load_checked m"
  note d = shapeD[OF sh]
  obtain r m' where fi: "ForceInsert m (k, v) = (r, m')" by (metis prod.exhaust)
  from absent have hi: "HashMap_insert m (k, v) = m'"
    by (simp add: HashMap_insert_def HashMap_find_end_iff[OF inv] fi)
  from ForceInsert_spec[OF inv _ fi] absent
  have inv': "hm_inv m'" and h': "map_hash_func m' = map_hash_func m" by simp_all
  from ForceInsert_lookup[OF inv _ fi] absent D
  have dm: "dom (lookup m') = insert k D" by simp
  have hm: "map_hash_func ?m1 = map_hash_func m"
    using Reconstruct_spec[OF inv, of True] by (simp add: load_checked_def)
  obtain ok r0 b' where ins: "Insert (b_array ?m1) (k, v) = ((ok, r0), b')"
    by (metis prod.exhaust)
  from Insert_spec[OF d(11) ins] have len: "length (array b') = length (array (b_array ?m1))"
    by simp
  from Insert_length_table_pairs[OF d(11), of "(k, v)"] d(6)
  have tp: "length (table_pairs b') = (if ok then t + 1 else t)" by (simp add: ins)
  have zh: "\<And>k. hash_func (b_array ?m1) k = 0" by (simp add: d(3) zero_hash_def)
  have ok: "ok \<longleftrightarrow> t < NEXT"
  proof (cases "t < NEXT")
    case True
    with Insert_succeeds[OF d(11), of "(k, v)"] d(6) ins show ?thesis by simp
  next
    case False
    with t have "length (table_pairs (b_array ?m1)) = NEXT" using d(6) by simp
    from Insert_fails_one_window[OF d(11,12) zh this, of "(k, v)"] ins False
    show ?thesis by simp
  qed
  have m': "m' = (if \<not> ok then ?m1\<lparr>b_array := b', list := list ?m1 @ [Bucket_of (k, v)]\<rparr>
                  else ?m1\<lparr>b_array := b'\<rparr>)"
    using fi by (simp add: ForceInsert_load_checked ins split: if_splits)
  from inv' have pc: "pairs_count (b_array m') = length (table_pairs (b_array m'))"
    by (auto simp: hm_inv_def)
  have b: "b_array m' = b'" by (simp add: m')
  have l: "map (\<lambda>b. fst (pair b)) (list m') = (if t < NEXT then ks else ks @ [k])"
    using d(7) ok by (simp add: m' Bucket_of_def)
  show ?thesis
    unfolding hi shape_def
    using inv' h' hm d(2,4) len pc tp ok l dm b by simp
qed

lemma load_checked_idle:
  "\<not> (MAX_LOAD_FACTOR < LoadFactor (b_array m) \<or> LoadFactor (b_array m) < MIN_LOAD_FACTOR) \<Longrightarrow>
   load_checked m = m"
  by (simp add: load_checked_def)

lemma load_checked_trigger:
  "MAX_LOAD_FACTOR < LoadFactor (b_array m) \<or> LoadFactor (b_array m) < MIN_LOAD_FACTOR \<Longrightarrow>
   load_checked m = Reconstruct m True False"
  by (simp add: load_checked_def)

lemma shape_trigger:
  assumes "shape m c t ks D" and "0 < c"
  shows "(MAX_LOAD_FACTOR < LoadFactor (b_array m) \<or> LoadFactor (b_array m) < MIN_LOAD_FACTOR)
         \<longleftrightarrow> (c + NEXT - 1 < 2 * t \<or> 10 * t < c + NEXT - 1)"
proof -
  note d = shapeD[OF assms(1)]
  from d(4) assms(2) have pos: "0 < length (array (b_array m))" by (simp add: NEXT_def)
  show ?thesis
    by (simp add: LoadFactor_less_MIN[OF pos] LoadFactor_greater_MAX[OF pos] d(4,5))
qed

lemma shape_erase:
  assumes sh: "shape m c t ks D" and k: "k \<in> D" and nk: "k \<notin> set ks"
  shows "shape (HashMap_erase m k) c (t - 1) ks (D - {k})"
proof -
  note d = shapeD[OF sh]
  from HashMap_erase_spec[OF d(1), of k]
  have inv': "hm_inv (HashMap_erase m k)"
    and h': "map_hash_func (HashMap_erase m k) = map_hash_func m"
    and l': "lookup (HashMap_erase m k) = (lookup m)(k := None)"
    by simp_all
  from l' d(9) have dm: "dom (lookup (HashMap_erase m k)) = D - {k}" by auto
  obtain erased b' where er: "Erase (b_array m) k = (erased, b')" by (metis prod.exhaust)
  from d(1) have cnt: "pairs_count (b_array m) = length (table_pairs (b_array m))"
    by (auto simp: hm_inv_def)
  note es = Erase_spec[OF d(11,12) cnt er]
  have erased
  proof (rule ccontr)
    assume "\<not> erased"
    with es have "k \<notin> fst ` set (table_pairs (b_array m))" by simp
    moreover from k d(9) have "lookup m k \<noteq> None" by auto
    then have "k \<in> fst ` set (elements m)" by (simp add: lookup_None_iff)
    ultimately have "k \<in> fst ` set (map pair (list m))" by (auto simp: elements_def)
    then have "k \<in> set (map (\<lambda>b. fst (pair b)) (list m))" by (auto simp: image_image)
    with d(7) nk show False by simp
  qed
  with es obtain v where v: "(k, v) \<in> set (table_pairs (b_array m))"
    "mset (table_pairs b') = mset (table_pairs (b_array m)) - {#(k, v)#}"
    and len: "length (array b') = length (array (b_array m))"
    and pc: "pairs_count b' = length (table_pairs b')"
    by auto
  from v have "size (mset (table_pairs b')) = size (mset (table_pairs (b_array m))) - 1"
    by (simp add: size_Diff_singleton)
  with d(6) have tp: "length (table_pairs b') = t - 1" by simp
  have res: "HashMap_erase m k = m\<lparr>b_array := b'\<rparr>"
    using \<open>erased\<close> by (simp add: HashMap_erase_def er)
  show ?thesis
    unfolding shape_def using inv' h' d(2,4,7) dm len pc tp by (simp add: res)
qed

subsection \<open>The states of the constant-hash map\<close>

lemma zero_map_Suc: "zero_map (Suc n) = HashMap_insert (zero_map n) (n, n)"
  by (simp add: zero_map_def)

lemma erased_zero_map_Suc: "erased_zero_map (Suc j) = HashMap_erase (erased_zero_map j) j"
  by (simp add: erased_zero_map_def)

lemma reachable_zero_map: "reachable (zero_map n)"
  by (induction n) (simp_all add: zero_map_Suc r_insert, simp add: zero_map_def r_new)

lemma reachable_erased_zero_map: "reachable (erased_zero_map j)"
proof (induction j)
  case 0
  show ?case by (simp add: erased_zero_map_def reachable_zero_map)
next
  case (Suc j)
  then show ?case by (simp add: erased_zero_map_Suc r_erase)
qed

lemma zero_map_small: "n \<le> 32 \<Longrightarrow> shape (zero_map n) 32 n [] {0..<n}"
proof (induction n)
  case 0
  from shape_new show ?case by (simp add: zero_map_def INITIAL_SIZE_def)
next
  case (Suc n)
  then have sh: "shape (zero_map n) 32 n [] {0..<n}" and n: "n < 32" by simp_all
  note d = shapeD[OF sh]
  from d(9) have absent: "lookup (zero_map n) n = None" by (auto simp: domIff)
  have sh1: "shape (load_checked (zero_map n)) 32 n [] {0..<n}"
  proof (cases "MAX_LOAD_FACTOR < LoadFactor (b_array (zero_map n))
                \<or> LoadFactor (b_array (zero_map n)) < MIN_LOAD_FACTOR")
    case False
    with sh show ?thesis by (simp add: load_checked_idle)
  next
    case True
    with shape_trigger[OF sh] n have "10 * n < 32 + NEXT - 1" by (simp add: NEXT_def)
    with shape_Reconstruct[OF sh] n show ?thesis
      by (simp add: load_checked_trigger[OF True] NEXT_def INITIAL_SIZE_def)
  qed
  from shape_insert[OF d(1) absent d(9) sh1, of n] n
  have "shape (zero_map (Suc n)) 32 (n + 1) [] (insert n {0..<n})"
    by (simp add: zero_map_Suc NEXT_def)
  moreover have "insert n {0..<n} = {0..<Suc n}" by auto
  ultimately show ?case by simp
qed

lemma zero_map_large: "32 < n \<Longrightarrow> shape (zero_map n) 64 32 [32..<n] {0..<n}"
proof (induction n)
  case 0
  then show ?case by simp
next
  case (Suc n)
  show ?case
  proof (cases "n = 32")
    case True
    from zero_map_small[of 32] have sh: "shape (zero_map 32) 32 32 [] {0..<32}" by simp
    note d = shapeD[OF sh]
    from d(9) have absent: "lookup (zero_map 32) 32 = None" by (auto simp: domIff)
    from shape_trigger[OF sh]
    have tr: "MAX_LOAD_FACTOR < LoadFactor (b_array (zero_map 32))
              \<or> LoadFactor (b_array (zero_map 32)) < MIN_LOAD_FACTOR"
      by (simp add: NEXT_def)
    from shape_Reconstruct[OF sh]
    have sh1: "shape (load_checked (zero_map 32)) 64 32 [] {0..<32}"
      by (simp add: load_checked_trigger[OF tr] NEXT_def INITIAL_SIZE_def)
    from shape_insert[OF d(1) absent d(9) sh1, of 32]
    have r: "shape (HashMap_insert (zero_map 32) (32, 32)) 64 32 [32] (insert 32 {0..<32})"
      by (simp add: NEXT_def)
    have z: "zero_map (Suc 32) = HashMap_insert (zero_map 32) (32, 32)"
      by (rule zero_map_Suc)
    have e1: "[32..<Suc 32] = [32::nat]" by simp
    have e2: "{0..<Suc 32} = insert 32 {0..<32::nat}" by auto
    show ?thesis unfolding True e1 e2 z by (rule r)
  next
    case False
    with Suc.prems have n: "32 < n" by simp
    from Suc.IH[OF n] have sh: "shape (zero_map n) 64 32 [32..<n] {0..<n}" .
    note d = shapeD[OF sh]
    from d(9) have absent: "lookup (zero_map n) n = None" by (auto simp: domIff)
    from shape_trigger[OF sh]
    have "\<not> (MAX_LOAD_FACTOR < LoadFactor (b_array (zero_map n))
              \<or> LoadFactor (b_array (zero_map n)) < MIN_LOAD_FACTOR)"
      by (simp add: NEXT_def)
    then have sh1: "shape (load_checked (zero_map n)) 64 32 [32..<n] {0..<n}"
      using sh by (simp add: load_checked_idle)
    from shape_insert[OF d(1) absent d(9) sh1, of n]
    have "shape (zero_map (Suc n)) 64 32 ([32..<n] @ [n]) (insert n {0..<n})"
      by (simp add: zero_map_Suc NEXT_def)
    moreover have "insert n {0..<n} = {0..<Suc n}" by auto
    moreover have "[32..<n] @ [n] = [32..<Suc n]" using n by simp
    ultimately show ?thesis by simp
  qed
qed

lemma erased_zero_map_shape:
  "j \<le> 32 \<Longrightarrow> shape (erased_zero_map j) 64 (32 - j) [32..<55] {j..<55}"
proof (induction j)
  case 0
  from zero_map_large[of 55] show ?case by (simp add: erased_zero_map_def)
next
  case (Suc j)
  then have sh: "shape (erased_zero_map j) 64 (32 - j) [32..<55] {j..<55}" and j: "j < 32"
    by simp_all
  from shape_erase[OF sh, of j] j
  have "shape (erased_zero_map (Suc j)) 64 (32 - j - 1) [32..<55] ({j..<55} - {j})"
    by (simp add: erased_zero_map_Suc)
  moreover have "{j..<55} - {j} = {Suc j..<55}" by auto
  ultimately show ?case by simp
qed

section \<open>The claims\<close>

subsection \<open>The concrete maps are reachable\<close>

lemma reachable_foldl_insert:
  "reachable m \<Longrightarrow> reachable (foldl (\<lambda>m k. HashMap_insert m (f k)) m ks)"
  by (induction ks arbitrary: m) (simp_all add: r_insert)

lemma reachable_fresh_map: "reachable fresh_map"
  unfolding fresh_map_def by (rule r_new)

lemma reachable_map_upto: "reachable (map_upto n)"
  unfolding map_upto_def by (rule reachable_foldl_insert[OF reachable_fresh_map])

subsection \<open>C9\<close>

lemma Find_loop_checked_eq:
  "hi \<le> length (array this) \<Longrightarrow>
   Find_loop_checked this key i hi = Some (Find_loop this key i hi)"
proof (induction this key i hi rule: Find_loop.induct)
  case (1 this key i hi)
  show ?case
  proof (cases "i < hi \<and> \<not> HasKey (array this ! i) key")
    case True
    with "1.IH"[OF _ _ "1.prems"] "1.prems" show ?thesis
      by (subst Find_loop_checked.simps, subst Find_loop.simps) simp
  next
    case False
    with "1.prems" show ?thesis
      by (subst Find_loop_checked.simps, subst Find_loop.simps) auto
  qed
qed

text \<open>
  C9. A table built for \<open>sz > 0\<close> addressable positions has \<open>sz + NEXT - 1\<close> buckets.
  For every key the ideal index is at most \<open>sz - 1\<close>, every index of the window
  \<open>[ideal, ideal + NEXT)\<close> that \<open>Find\<close> scans is an index of the array, and so the scan
  with checked accesses never leaves the array and returns what \<open>Find\<close> returns.
\<close>

theorem find_scan_in_bounds:
  assumes "length (array this) = sz + NEXT - 1" and "0 < sz"
  shows "GetIndex this key \<le> sz - 1 \<and>
         (\<forall>i. GetIndex this key \<le> i \<and> i < GetIndex this key + NEXT \<longrightarrow> i < length (array this)) \<and>
         Find_checked this key = Some (Find this key)"
proof -
  from assms have cap: "NEXT \<le> length (array this)" and c: "capacity this = sz"
    by (simp_all add: capacity_def NEXT_def)
  from GetIndex_less[OF cap, of key] c have "GetIndex this key \<le> sz - 1" by simp
  moreover from GetIndex_window[OF cap, of key]
  have w: "GetIndex this key + NEXT \<le> length (array this)" .
  moreover from Find_loop_checked_eq[OF w] have "Find_checked this key = Some (Find this key)"
    by (simp add: Find_checked_def Find_def Let_def)
  ultimately show ?thesis by simp
qed

theorem find_scan_in_bounds_witness:
  "length (array empty_table) = 32 + NEXT - 1 \<and> GetIndex empty_table 95 = 31 \<and>
   GetIndex empty_table 95 + NEXT - 1 < length (array empty_table) \<and>
   Find_checked empty_table 95 = Some (Find empty_table 95)"
proof -
  have l: "length (array empty_table) = 32 + NEXT - 1"
    by (simp add: empty_table_def BucketArray_new_def)
  have g: "GetIndex empty_table 95 = 31"
    by (simp add: GetIndex_def empty_table_def BucketArray_new_def NEXT_def)
  from find_scan_in_bounds[OF l, of 95] g l show ?thesis by (simp add: NEXT_def)
qed

subsection \<open>C10\<close>

text \<open>
  C10. In a table with at least one addressable position, every bucket whose key the
  displacement loop of \<open>Insert\<close> reads (\<open>array_[pot_bucket].GetRef().first\<close>) is occupied
  at the moment of the read: the log of \<open>Insert_logged\<close> holds no unoccupied read.
  \<open>Insert\<close> is \<open>Insert_logged\<close> without the log.
\<close>

theorem displacement_reads_occupied:
  assumes "NEXT \<le> length (array this)"
  shows "(\<forall>r \<in> set (snd (snd (Insert_logged this p))). snd r) \<and>
         Insert this p = (fst (Insert_logged this p), fst (snd (Insert_logged this p)))"
proof -
  obtain ok r this' reads where i: "Insert_logged this p = ((ok, r), this', reads)"
    by (metis prod.exhaust)
  from Insert_logged_spec[OF assms i] have "\<forall>x \<in> set reads. snd x" by simp
  then show ?thesis by (simp add: i Insert_def)
qed

lemma full_window_insert:
  "snd (snd (Insert_logged full_window (32, 5))) = [(1, True)]"
  by code_simp

theorem displacement_reads_occupied_witness:
  "NEXT \<le> length (array full_window) \<and>
   snd (snd (Insert_logged full_window (32, 5))) = [(1, True)] \<and>
   list_all snd (snd (snd (Insert_logged full_window (32, 5))))"
proof -
  have l: "NEXT \<le> length (array full_window)"
    by (simp add: full_window_def NEXT_def)
  from displacement_reads_occupied[OF l, of "(32, 5)"] l full_window_insert
  show ?thesis by (simp add: list_all_iff)
qed

subsection \<open>C1\<close>

lemma placed_full_window: "placed full_window"
  unfolding placed_def by code_simp

text \<open>
  C1. In every state of the map reachable from a fresh map by \<open>insert\<close>, \<open>erase\<close>,
  \<open>operator[]\<close> (also with an assignment through the reference) and \<open>clear\<close>, every
  occupied bucket \<open>j\<close> of the array holds a key \<open>k\<close> with
  \<open>GetIndex k \<le> j < GetIndex k + NEXT\<close>. And a swap of the displacement loop (done at
  \<open>pot_bucket < empty_bucket\<close> when \<open>empty_bucket\<close> is inside the window of the key at
  \<open>pot_bucket\<close>) in a table with this property moves the pair of \<open>pot_bucket\<close> to
  \<open>empty_bucket\<close>, which lies in the window of its key, frees \<open>pot_bucket\<close>, and
  leaves a table with this property.
\<close>

theorem placement_invariant:
  "(reachable m \<longrightarrow>
      (\<forall>j < length (array (b_array m)). is_occupied (array (b_array m) ! j) \<longrightarrow>
         GetIndex (b_array m) (fst (pair (array (b_array m) ! j))) \<le> j \<and>
         j < GetIndex (b_array m) (fst (pair (array (b_array m) ! j))) + NEXT)) \<and>
   (placed this \<and> pot < e \<and> e < length (array this) \<and>
    is_occupied (array this ! pot) \<and> \<not> is_occupied (array this ! e) \<and>
    e < GetIndex this (fst (GetRef (array this ! pot))) + NEXT \<longrightarrow>
      is_occupied (array (swap_buckets this pot e) ! e) \<and>
      pair (array (swap_buckets this pot e) ! e) = pair (array this ! pot) \<and>
      GetIndex this (fst (pair (array this ! pot))) \<le> e \<and>
      e < GetIndex this (fst (pair (array this ! pot))) + NEXT \<and>
      \<not> is_occupied (array (swap_buckets this pot e) ! pot) \<and>
      placed (swap_buckets this pot e))"
proof (intro conjI impI)
  assume "reachable m"
  then have "placed (b_array m)" using reachable_inv[of m] by (simp add: hm_inv_def)
  then show "\<forall>j < length (array (b_array m)). is_occupied (array (b_array m) ! j) \<longrightarrow>
         GetIndex (b_array m) (fst (pair (array (b_array m) ! j))) \<le> j \<and>
         j < GetIndex (b_array m) (fst (pair (array (b_array m) ! j))) + NEXT"
    by (simp add: placed_def)
next
  assume a: "placed this \<and> pot < e \<and> e < length (array this) \<and>
    is_occupied (array this ! pot) \<and> \<not> is_occupied (array this ! e) \<and>
    e < GetIndex this (fst (GetRef (array this ! pot))) + NEXT"
  then have len: "pot < length (array this)" "e < length (array this)" by simp_all
  from a have pl: "placed (swap_buckets this pot e)"
    by (intro placed_swap_buckets) simp_all
  have c: "contents (swap_buckets this pot e) =
           (contents this)[pot := contents this ! e, e := contents this ! pot]"
    by (rule contents_swap_buckets[OF len])
  from a len have cp: "contents this ! pot = Some (pair (array this ! pot))"
    and ce: "contents this ! e = None"
    by (simp_all add: contents_nth content_def)
  from c cp ce len a have "contents (swap_buckets this pot e) ! e = Some (pair (array this ! pot))"
    "contents (swap_buckets this pot e) ! pot = None"
    by simp_all
  with len have moved: "is_occupied (array (swap_buckets this pot e) ! e)"
    "pair (array (swap_buckets this pot e) ! e) = pair (array this ! pot)"
    "\<not> is_occupied (array (swap_buckets this pot e) ! pot)"
    by (simp_all add: contents_nth content_Some_iff content_None_iff)
  from a placedD[OF _ len(1) cp] have lo: "GetIndex this (fst (pair (array this ! pot))) \<le> e"
    by simp
  from a have hi: "e < GetIndex this (fst (pair (array this ! pot))) + NEXT"
    by (simp add: GetRef_def)
  show "is_occupied (array (swap_buckets this pot e) ! e)" by (rule moved(1))
  show "pair (array (swap_buckets this pot e) ! e) = pair (array this ! pot)" by (rule moved(2))
  show "GetIndex this (fst (pair (array this ! pot))) \<le> e" by (rule lo)
  show "e < GetIndex this (fst (pair (array this ! pot))) + NEXT" by (rule hi)
  show "\<not> is_occupied (array (swap_buckets this pot e) ! pot)" by (rule moved(3))
  show "placed (swap_buckets this pot e)" by (rule pl)
qed

lemma map_upto_2_bucket:
  "length (array (b_array (map_upto 2))) = 63 \<and> is_occupied (array (b_array (map_upto 2)) ! 1)"
  by code_simp

lemma full_window_swap_guard:
  "1 < length (array full_window) \<and> 32 < length (array full_window) \<and>
   is_occupied (array full_window ! 1) \<and> \<not> is_occupied (array full_window ! 32) \<and>
   32 < GetIndex full_window (fst (GetRef (array full_window ! 1))) + NEXT"
  by code_simp

theorem placement_invariant_witness:
  "reachable (map_upto 2) \<and> is_occupied (array (b_array (map_upto 2)) ! 1) \<and>
   GetIndex (b_array (map_upto 2)) (fst (pair (array (b_array (map_upto 2)) ! 1))) \<le> 1 \<and>
   1 < GetIndex (b_array (map_upto 2)) (fst (pair (array (b_array (map_upto 2)) ! 1))) + NEXT \<and>
   placed full_window \<and> is_occupied (array full_window ! 1) \<and>
   \<not> is_occupied (array full_window ! 32) \<and>
   32 < GetIndex full_window (fst (GetRef (array full_window ! 1))) + NEXT \<and>
   pair (array (swap_buckets full_window 1 32) ! 32) = pair (array full_window ! 1) \<and>
   placed (swap_buckets full_window 1 32)"
  using placement_invariant[of "map_upto 2" full_window 1 32]
    reachable_map_upto[of 2] map_upto_2_bucket placed_full_window full_window_swap_guard
  by simp

subsection \<open>C2\<close>

text \<open>
  C2. In every reachable state no key occurs twice among the occupied buckets of the
  array and the buckets of the overflow vector together: not twice in the array, not
  twice in the vector, and not in both. And \<open>size()\<close> is the number of occupied buckets
  plus the length of the overflow vector.
\<close>

theorem uniqueness_and_size:
  assumes "reachable m"
  shows "distinct (map fst (table_pairs (b_array m) @ map pair (list m))) \<and>
         fst ` set (table_pairs (b_array m)) \<inter> fst ` set (map pair (list m)) = {} \<and>
         HashMap_size m = length (filter is_occupied (array (b_array m))) + length (list m)"
proof -
  from reachable_inv[OF assms]
  have d: "distinct (map fst (elements m))"
    and c: "pairs_count (b_array m) = length (table_pairs (b_array m))"
    by (simp_all add: hm_inv_def)
  from d have "distinct (map fst (table_pairs (b_array m) @ map pair (list m)))"
    by (simp add: elements_def)
  moreover from this
  have "fst ` set (table_pairs (b_array m)) \<inter> fst ` set (map pair (list m)) = {}"
    by (simp add: image_image)
  moreover from c
  have "HashMap_size m = length (filter is_occupied (array (b_array m))) + length (list m)"
    by (simp add: HashMap_size_def PairsCount_def table_pairs_def)
  ultimately show ?thesis by simp
qed

lemma map_upto_2_size: "HashMap_size (map_upto 2) = 2"
  by code_simp

theorem uniqueness_and_size_witness:
  "reachable (map_upto 2) \<and> HashMap_size (map_upto 2) = 2 \<and>
   distinct (map fst (table_pairs (b_array (map_upto 2)) @ map pair (list (map_upto 2)))) \<and>
   length (filter is_occupied (array (b_array (map_upto 2)))) + length (list (map_upto 2)) = 2"
  using uniqueness_and_size[OF reachable_map_upto[of 2]] reachable_map_upto[of 2] map_upto_2_size
  by simp

subsection \<open>C8\<close>

text \<open>
  C8. In every reachable state, \<open>at(k)\<close> throws \<open>std::out_of_range\<close> exactly when no
  occupied bucket of the array and no bucket of the overflow vector holds \<open>k\<close>, and
  returns the value stored with \<open>k\<close> otherwise. \<open>at\<close> is a \<open>const\<close> member: it yields a
  result and no new state. For an absent key \<open>find\<close> returns \<open>end()\<close> and \<open>erase\<close> leaves the
  map as it is; neither has an error result.
\<close>

theorem at_key_not_found:
  assumes "reachable m"
  shows "(HashMap_at m k = Inl (out_of_range ''Key was not found'') \<longleftrightarrow>
            k \<notin> fst ` set (table_pairs (b_array m)) \<and> k \<notin> fst ` set (map pair (list m))) \<and>
         (\<forall>v. (k, v) \<in> set (table_pairs (b_array m)) \<union> set (map pair (list m)) \<longrightarrow>
              HashMap_at m k = Inr v) \<and>
         (k \<notin> fst ` set (table_pairs (b_array m)) \<and> k \<notin> fst ` set (map pair (list m)) \<longrightarrow>
            iter_eq (HashMap_find m k) (HashMap_end m) \<and> HashMap_erase m k = m)"
proof -
  note inv = reachable_inv[OF assms]
  have none: "lookup m k = None \<longleftrightarrow>
        k \<notin> fst ` set (table_pairs (b_array m)) \<and> k \<notin> fst ` set (map pair (list m))"
    by (auto simp: lookup_None_iff elements_def)
  have some: "lookup m k = Some v \<longleftrightarrow>
        (k, v) \<in> set (table_pairs (b_array m)) \<union> set (map pair (list m))" for v
    by (simp add: lookup_Some_iff[OF inv] elements_def)
  have 1: "HashMap_at m k = Inl (out_of_range ''Key was not found'') \<longleftrightarrow> lookup m k = None"
    by (simp add: HashMap_at_spec[OF inv] split: option.splits)
  have 2: "lookup m k = Some v \<Longrightarrow> HashMap_at m k = Inr v" for v
    by (simp add: HashMap_at_spec[OF inv])
  have 3: "lookup m k = None \<Longrightarrow>
           iter_eq (HashMap_find m k) (HashMap_end m) \<and> HashMap_erase m k = m"
    using HashMap_find_end_iff[OF inv, of k] HashMap_erase_spec[OF inv, of k] by simp
  from 1 2 3 show ?thesis unfolding none some by blast
qed

lemma map_upto_2_at:
  "HashMap_at (map_upto 2) 5 = Inl (out_of_range ''Key was not found'') \<and>
   HashMap_at (map_upto 2) 1 = Inr 1"
  by code_simp

theorem at_key_not_found_witness:
  "reachable (map_upto 2) \<and>
   HashMap_at (map_upto 2) 5 = Inl (out_of_range ''Key was not found'') \<and>
   5 \<notin> fst ` set (table_pairs (b_array (map_upto 2))) \<and>
   5 \<notin> fst ` set (map pair (list (map_upto 2))) \<and>
   iter_eq (HashMap_find (map_upto 2) 5) (HashMap_end (map_upto 2)) \<and>
   HashMap_erase (map_upto 2) 5 = map_upto 2 \<and>
   HashMap_at (map_upto 2) 1 = Inr 1"
  using at_key_not_found[OF reachable_map_upto[of 2], of 5] reachable_map_upto[of 2]
    map_upto_2_at
  by simp

subsection \<open>C3\<close>

text \<open>
  C3. In every reachable state, for every key \<open>k\<close> that the map does not hold yet (so
  that \<open>insert(k, v1)\<close> is the first insert of \<open>k\<close>) and all values \<open>v1\<close>, \<open>v2\<close>: after
  \<open>insert(k, v1)\<close> the call \<open>insert(k, v2)\<close> changes nothing (the map and so \<open>size()\<close>
  stay as they are), the value stored for \<open>k\<close> is \<open>v1\<close> (\<open>at\<close> returns it and \<open>find\<close>
  points to it), and \<open>operator[]\<close> then yields \<open>v1\<close> and leaves the map as it is.
\<close>

theorem first_insert_wins:
  assumes "reachable m" and "iter_eq (HashMap_find m k) (HashMap_end m)"
  shows "HashMap_insert (HashMap_insert m (k, v1)) (k, v2) = HashMap_insert m (k, v1) \<and>
         HashMap_size (HashMap_insert (HashMap_insert m (k, v1)) (k, v2))
           = HashMap_size (HashMap_insert m (k, v1)) \<and>
         HashMap_at (HashMap_insert (HashMap_insert m (k, v1)) (k, v2)) k = Inr v1 \<and>
         ref_get (HashMap_insert (HashMap_insert m (k, v1)) (k, v2))
           (iter_deref (HashMap_find (HashMap_insert (HashMap_insert m (k, v1)) (k, v2)) k))
           = (k, v1) \<and>
         ref_get (snd (HashMap_index (HashMap_insert (HashMap_insert m (k, v1)) (k, v2)) k))
           (fst (HashMap_index (HashMap_insert (HashMap_insert m (k, v1)) (k, v2)) k))
           = (k, v1) \<and>
         snd (HashMap_index (HashMap_insert (HashMap_insert m (k, v1)) (k, v2)) k)
           = HashMap_insert (HashMap_insert m (k, v1)) (k, v2)"
proof -
  note inv = reachable_inv[OF assms(1)]
  let ?m1 = "HashMap_insert m (k, v1)"
  from assms(2) have none: "lookup m k = None"
    by (simp add: HashMap_find_end_iff[OF inv])
  from HashMap_insert_spec[OF inv, of "(k, v1)"] none
  have inv1: "hm_inv ?m1" and l1: "lookup ?m1 k = Some v1"
    by simp_all
  from HashMap_insert_spec[OF inv1, of "(k, v2)"] l1
  have m2: "HashMap_insert ?m1 (k, v2) = ?m1" by simp
  obtain r m' where ix: "HashMap_index ?m1 k = (r, m')" by (metis prod.exhaust)
  from HashMap_index_spec[OF inv1 ix]
  have e: "m' = ?m1" and rg: "ref_get ?m1 r = (k, v1)"
    unfolding l1 by auto
  have at: "HashMap_at ?m1 k = Inr v1"
    unfolding HashMap_at_spec[OF inv1] l1 by simp
  from HashMap_find_spec[OF inv1, of k]
  have fd: "ref_get ?m1 (iter_deref (HashMap_find ?m1 k)) = (k, v1)"
    unfolding l1 by simp
  show ?thesis
    unfolding m2 ix fst_conv snd_conv e rg at fd by simp
qed

lemma map_upto_2_absent: "iter_eq (HashMap_find (map_upto 2) 5) (HashMap_end (map_upto 2))"
  by code_simp

theorem first_insert_wins_witness:
  "reachable (map_upto 2) \<and>
   iter_eq (HashMap_find (map_upto 2) 5) (HashMap_end (map_upto 2)) \<and>
   HashMap_at (HashMap_insert (HashMap_insert (map_upto 2) (5, 7)) (5, 9)) 5 = Inr 7 \<and>
   HashMap_size (HashMap_insert (HashMap_insert (map_upto 2) (5, 7)) (5, 9))
     = HashMap_size (HashMap_insert (map_upto 2) (5, 7))"
proof -
  note t = first_insert_wins[OF reachable_map_upto[of 2] map_upto_2_absent, of 7 9]
  from t have a: "HashMap_at (HashMap_insert (HashMap_insert (map_upto 2) (5, 7)) (5, 9)) 5
      = Inr 7"
    by blast
  from t have b: "HashMap_size (HashMap_insert (HashMap_insert (map_upto 2) (5, 7)) (5, 9))
     = HashMap_size (HashMap_insert (map_upto 2) (5, 7))"
    by blast
  from a b reachable_map_upto[of 2] map_upto_2_absent show ?thesis by simp
qed

text \<open>
  For a key that the map holds already, \<open>insert\<close> changes nothing, so the value stored
  before is kept.
\<close>

lemma insert_present_noop:
  assumes "\<not> iter_eq (HashMap_find m k) (HashMap_end m)"
  shows "HashMap_insert m (k, v) = m"
  using assms by (simp add: HashMap_insert_def)

subsection \<open>C4\<close>

text \<open>
  C4 as stated fails: \<open>insert\<close> never overwrites, so after \<open>insert(1, 10)\<close> and
  \<open>insert(1, 20)\<close> on a fresh map \<open>find(1)\<close> points to the value \<open>10\<close>, not to the last
  value inserted.
\<close>

theorem round_trip_counterexample:
  "snd (ref_get (HashMap_insert (HashMap_insert fresh_map (1, 10)) (1, 20))
         (iter_deref (HashMap_find (HashMap_insert (HashMap_insert fresh_map (1, 10)) (1, 20)) 1)))
   \<noteq> 20"
  by code_simp

lemma foldl_insert_spec:
  "hm_inv m \<Longrightarrow>
   hm_inv (foldl HashMap_insert m ps) \<and>
   lookup (foldl HashMap_insert m ps) k =
     (case lookup m k of None \<Rightarrow> map_of ps k | Some v \<Rightarrow> Some v)"
proof (induction ps arbitrary: m)
  case Nil
  then show ?case by (simp split: option.splits)
next
  case (Cons p ps)
  from HashMap_insert_spec[OF Cons.prems, of p]
  have inv1: "hm_inv (HashMap_insert m p)"
    and l1: "lookup (HashMap_insert m p) k =
             (case lookup m k of None \<Rightarrow> (if k = fst p then Some (snd p) else None)
              | Some v \<Rightarrow> Some v)"
    by (auto split: option.splits)
  from Cons.IH[OF inv1] l1 show ?case
    by (cases p) (auto split: option.splits)
qed

lemma foldl_erase_spec:
  "hm_inv m \<Longrightarrow>
   hm_inv (foldl HashMap_erase m es) \<and>
   (k \<notin> set es \<longrightarrow> lookup (foldl HashMap_erase m es) k = lookup m k)"
proof (induction es arbitrary: m)
  case Nil
  then show ?case by simp
next
  case (Cons e es)
  from HashMap_erase_spec[OF Cons.prems, of e]
  have inv1: "hm_inv (HashMap_erase m e)"
    and l1: "lookup (HashMap_erase m e) = (lookup m)(e := None)"
    by simp_all
  from Cons.IH[OF inv1] l1 show ?case by auto
qed

text \<open>
  C4, amended. After any finite sequence \<open>ps\<close> of \<open>insert\<close> calls on a fresh map, followed
  by any \<open>erase\<close> calls for keys other than \<open>k\<close>, \<open>find(k)\<close> for an inserted key \<open>k\<close> is not
  \<open>end()\<close> and points to \<open>k\<close> with the first value inserted for \<open>k\<close> (\<open>map_of ps k\<close> is the
  value of the first pair of \<open>ps\<close> with key \<open>k\<close>).
\<close>

theorem round_trip_first_value:
  assumes "map_of ps k = Some v" and "k \<notin> set es"
  shows "\<not> iter_eq (HashMap_find (foldl HashMap_erase (foldl HashMap_insert (HashMap_new hash) ps) es) k)
              (HashMap_end (foldl HashMap_erase (foldl HashMap_insert (HashMap_new hash) ps) es)) \<and>
         ref_get (foldl HashMap_erase (foldl HashMap_insert (HashMap_new hash) ps) es)
           (iter_deref (HashMap_find
              (foldl HashMap_erase (foldl HashMap_insert (HashMap_new hash) ps) es) k))
         = (k, v)"
proof -
  let ?m1 = "foldl HashMap_insert (HashMap_new hash) ps"
  let ?m2 = "foldl HashMap_erase ?m1 es"
  from foldl_insert_spec[OF hm_inv_new, of hash ps k] assms(1)
  have inv1: "hm_inv ?m1" and l1: "lookup ?m1 k = Some v"
    by (simp_all add: lookup_new)
  from foldl_erase_spec[OF inv1, of es k] assms(2) l1
  have inv2: "hm_inv ?m2" and l2: "lookup ?m2 k = Some v"
    by simp_all
  from HashMap_find_spec[OF inv2, of k] l2 show ?thesis by simp
qed

theorem round_trip_first_value_witness:
  "map_of [(1 :: nat, 10 :: nat), (2, 5), (1, 20)] 1 = Some 10 \<and> 1 \<notin> set [2 :: nat] \<and>
   ref_get (foldl HashMap_erase
              (foldl HashMap_insert (HashMap_new id) [(1 :: nat, 10 :: nat), (2, 5), (1, 20)]) [2])
     (iter_deref (HashMap_find
        (foldl HashMap_erase
           (foldl HashMap_insert (HashMap_new id) [(1 :: nat, 10 :: nat), (2, 5), (1, 20)]) [2]) 1))
   = (1, 10)"
proof -
  have a: "map_of [(1 :: nat, 10 :: nat), (2, 5), (1, 20)] 1 = Some 10" by simp
  have b: "1 \<notin> set [2 :: nat]" by simp
  from round_trip_first_value[OF a b, of id] a b show ?thesis by blast
qed

subsection \<open>C5\<close>

lemma map_upto_33_capacity: "capacity (b_array (HashMap_clear (map_upto 33))) = 64"
  by code_simp

text \<open>
  C5 as stated fails: \<open>clear()\<close> calls \<open>Reconstruct(false, true)\<close>, which keeps the
  capacity. After the keys \<open>0, \<dots>, 32\<close> were inserted the capacity is 64, and it is 64
  after \<open>clear()\<close>, not the initial 32.
\<close>

theorem clear_capacity_counterexample:
  "capacity (b_array (HashMap_clear (map_upto 33))) \<noteq> INITIAL_SIZE"
  using map_upto_33_capacity by (simp add: INITIAL_SIZE_def)

text \<open>
  C5, amended. After \<open>clear()\<close> on any map state \<open>size()\<close> is 0, the overflow vector is
  empty, no bucket of the new array is occupied, and the new table has the capacity of
  the table before the call, or \<open>INITIAL_SIZE\<close> where that is larger; in a reachable
  state this is the capacity before the call.
\<close>

theorem clear_keeps_capacity:
  "HashMap_size (HashMap_clear m) = 0 \<and> list (HashMap_clear m) = [] \<and>
   list_all (\<lambda>b. \<not> is_occupied b) (array (b_array (HashMap_clear m))) \<and>
   capacity (b_array (HashMap_clear m)) = max (capacity (b_array m)) INITIAL_SIZE \<and>
   (reachable m \<longrightarrow> capacity (b_array (HashMap_clear m)) = capacity (b_array m))"
proof -
  let ?n = "new_size_of m False"
  have c: "HashMap_clear m =
      m\<lparr>b_array := BucketArray_assign (b_array m) (BucketArray_new ?n (map_hash_func m)),
        list := []\<rparr>"
    by (simp add: HashMap_clear_def Reconstruct_clear)
  have n: "?n = max (capacity (b_array m)) INITIAL_SIZE"
    by (simp add: new_size_of_def)
  have 1: "HashMap_size (HashMap_clear m) = 0"
    by (simp add: c HashMap_size_def PairsCount_def)
  have 2: "list (HashMap_clear m) = []" by (simp add: c)
  have 3: "list_all (\<lambda>b. \<not> is_occupied b) (array (b_array (HashMap_clear m)))"
    by (simp add: c BucketArray_assign_def BucketArray_new_def list_all_iff Bucket_copy_def
        Bucket_assign_def Bucket_default_def)
  have 4: "capacity (b_array (HashMap_clear m)) = max (capacity (b_array m)) INITIAL_SIZE"
    using new_size_of_ge[of m False] unfolding n[symmetric]
    by (simp add: c capacity_def NEXT_def INITIAL_SIZE_def)
  have 5: "capacity (b_array (HashMap_clear m)) = capacity (b_array m)" if "reachable m"
  proof -
    from reachable_inv[OF that] have "INITIAL_SIZE \<le> capacity (b_array m)"
      by (auto simp: hm_inv_def capacity_def NEXT_def INITIAL_SIZE_def)
    with 4 show ?thesis by simp
  qed
  from 1 2 3 4 5 show ?thesis by blast
qed

theorem clear_keeps_capacity_witness:
  "reachable (map_upto 33) \<and> HashMap_size (HashMap_clear (map_upto 33)) = 0 \<and>
   capacity (b_array (HashMap_clear (map_upto 33))) = capacity (b_array (map_upto 33)) \<and>
   capacity (b_array (map_upto 33)) = 64"
proof -
  note t = clear_keeps_capacity[of "map_upto 33"]
  from t have a: "HashMap_size (HashMap_clear (map_upto 33)) = 0" by blast
  from t reachable_map_upto[of 33]
  have b: "capacity (b_array (HashMap_clear (map_upto 33))) = capacity (b_array (map_upto 33))"
    by blast
  from a b map_upto_33_capacity reachable_map_upto[of 33] show ?thesis by simp
qed

subsection \<open>C6\<close>

lemma fresh_map_loads:
  "LoadFactor (b_array fresh_map) < MIN_LOAD_FACTOR \<and>
   LoadFactor (b_array (Reconstruct fresh_map True False)) < MIN_LOAD_FACTOR \<and>
   LoadFactor (b_array (HashMap_insert fresh_map (1, 1))) < MIN_LOAD_FACTOR"
  by code_simp

lemma erased_23_shape: "shape (erased_zero_map 23) 64 9 [32..<55] {23..<55}"
  using erased_zero_map_shape[of 23] by simp

lemma erased_23_trigger: "LoadFactor (b_array (erased_zero_map 23)) < MIN_LOAD_FACTOR"
proof -
  note d = shapeD[OF erased_23_shape]
  from d(4) have "0 < length (array (b_array (erased_zero_map 23)))" by (simp add: NEXT_def)
  from LoadFactor_less_MIN[OF this] d(4,5) show ?thesis by (simp add: NEXT_def)
qed

lemma erased_23_Reconstruct:
  "shape (Reconstruct (erased_zero_map 23) True False) 32 32 [] {23..<55}"
  using shape_Reconstruct[OF erased_23_shape] by (simp add: NEXT_def INITIAL_SIZE_def)

lemma shape_load_32:
  assumes "shape m 32 32 ks D"
  shows "MAX_LOAD_FACTOR < LoadFactor (b_array m)"
proof -
  note d = shapeD[OF assms]
  from d(4) have "0 < length (array (b_array m))" by (simp add: NEXT_def)
  from LoadFactor_greater_MAX[OF this] d(4,5) show ?thesis by (simp add: NEXT_def)
qed

lemma erased_23_insert:
  "shape (HashMap_insert (erased_zero_map 23) (55, 55)) 32 32 [55] (insert 55 {23..<55})"
proof -
  note d = shapeD[OF erased_23_shape]
  from d(9) have absent: "lookup (erased_zero_map 23) 55 = None" by (auto simp: domIff)
  from erased_23_trigger
  have "load_checked (erased_zero_map 23) = Reconstruct (erased_zero_map 23) True False"
    by (simp add: load_checked_trigger)
  with erased_23_Reconstruct
  have sh1: "shape (load_checked (erased_zero_map 23)) 32 32 [] {23..<55}" by simp
  from shape_insert[OF d(1) absent d(9) sh1, of 55] show ?thesis by (simp add: NEXT_def)
qed

text \<open>
  C6 as stated fails at both bounds.
  On a fresh map the load factor is 0, below \<open>MIN_LOAD_FACTOR\<close>, so the first insert
  triggers \<open>Reconstruct\<close>; the halved capacity is raised to \<open>INITIAL_SIZE\<close> again, and the
  load factor is below \<open>MIN_LOAD_FACTOR\<close> after the reconstruct and still after the
  pending insert.
  With a hash function that is constantly 0, after the inserts of the keys
  \<open>0, \<dots>, 54\<close> and the erasure of the keys \<open>0, \<dots>, 22\<close> the table has capacity 64 and 9
  occupied buckets out of 95, and the overflow vector has 23 entries. The load factor is
  below \<open>MIN_LOAD_FACTOR\<close>, so the next insert triggers \<open>Reconstruct\<close>, which halves the
  capacity to 32; all 32 pairs go into the new array of 63 buckets, and the load factor
  is above \<open>MAX_LOAD_FACTOR\<close> after the reconstruct and after the pending insert.
\<close>

theorem load_factor_counterexample:
  "LoadFactor (b_array fresh_map) < MIN_LOAD_FACTOR \<and>
   LoadFactor (b_array (Reconstruct fresh_map True False)) < MIN_LOAD_FACTOR \<and>
   LoadFactor (b_array (HashMap_insert fresh_map (1, 1))) < MIN_LOAD_FACTOR \<and>
   LoadFactor (b_array (erased_zero_map 23)) < MIN_LOAD_FACTOR \<and>
   MAX_LOAD_FACTOR < LoadFactor (b_array (Reconstruct (erased_zero_map 23) True False)) \<and>
   MAX_LOAD_FACTOR < LoadFactor (b_array (HashMap_insert (erased_zero_map 23) (55, 55)))"
  using fresh_map_loads erased_23_trigger shape_load_32[OF erased_23_Reconstruct]
    shape_load_32[OF erased_23_insert]
  by blast

text \<open>
  C6, amended. A reconstruct triggered during an insert in a reachable state (the load
  factor is above \<open>MAX_LOAD_FACTOR\<close> or below \<open>MIN_LOAD_FACTOR\<close>) makes a table whose
  capacity is half the old one, but at least \<open>INITIAL_SIZE\<close>, when the load factor was
  below \<open>MIN_LOAD_FACTOR\<close>, and twice the old one otherwise. Every pair of the map is
  in the new array or the new overflow vector, \<open>size()\<close> is unchanged, and the new load
  factor is at most \<open>size()\<close> divided by the new array length. No bound by
  \<open>MIN_LOAD_FACTOR\<close> or \<open>MAX_LOAD_FACTOR\<close> is stated.
\<close>

theorem reconstruct_on_insert:
  assumes "reachable m"
    and "LoadFactor (b_array m) > MAX_LOAD_FACTOR \<or> LoadFactor (b_array m) < MIN_LOAD_FACTOR"
  shows "load_checked m = Reconstruct m True False \<and>
         capacity (b_array (Reconstruct m True False)) =
           (if LoadFactor (b_array m) < MIN_LOAD_FACTOR
            then max (capacity (b_array m) div 2) INITIAL_SIZE
            else capacity (b_array m) * 2) \<and>
         mset (elements (Reconstruct m True False)) = mset (elements m) \<and>
         HashMap_size (Reconstruct m True False) = HashMap_size m \<and>
         LoadFactor (b_array (Reconstruct m True False)) \<le>
           of_nat (HashMap_size m) / of_nat (length (array (b_array (Reconstruct m True False))))"
proof -
  note inv = reachable_inv[OF assms(1)]
  let ?r = "Reconstruct m True False"
  from Reconstruct_spec[OF inv, of True]
  have invr: "hm_inv ?r" and el: "mset (elements ?r) = mset (elements m)"
    and cap: "capacity (b_array ?r) = new_size_of m True"
    by simp_all
  from inv have "INITIAL_SIZE \<le> capacity (b_array m)"
    by (auto simp: hm_inv_def capacity_def NEXT_def INITIAL_SIZE_def)
  then have ns: "new_size_of m True =
      (if LoadFactor (b_array m) < MIN_LOAD_FACTOR
       then max (capacity (b_array m) div 2) INITIAL_SIZE else capacity (b_array m) * 2)"
    by (simp add: new_size_of_def)
  have sz: "HashMap_size x = length (elements x)" if "hm_inv x" for x :: "('a, 'b) HashMap"
    using that by (simp add: HashMap_size_def PairsCount_def hm_inv_def elements_def)
  from el have "size (mset (elements ?r)) = size (mset (elements m))" by simp
  then have size: "HashMap_size ?r = HashMap_size m"
    by (simp add: sz[OF inv] sz[OF invr])
  have "pairs_count (b_array ?r) \<le> HashMap_size ?r"
    by (simp add: HashMap_size_def PairsCount_def)
  then have "(of_nat (pairs_count (b_array ?r)) :: rat) \<le> of_nat (HashMap_size m)"
    unfolding size by simp
  then have lf: "LoadFactor (b_array ?r) \<le>
      of_nat (HashMap_size m) / of_nat (length (array (b_array ?r)))"
    unfolding LoadFactor_def by (rule divide_right_mono) simp
  from assms(2) have "load_checked m = ?r" by (simp add: load_checked_def)
  with cap ns el size lf show ?thesis by simp
qed

theorem reconstruct_on_insert_witness:
  "reachable (erased_zero_map 23) \<and>
   LoadFactor (b_array (erased_zero_map 23)) < MIN_LOAD_FACTOR \<and>
   capacity (b_array (erased_zero_map 23)) = 64 \<and> HashMap_size (erased_zero_map 23) = 32 \<and>
   load_checked (erased_zero_map 23) = Reconstruct (erased_zero_map 23) True False \<and>
   capacity (b_array (Reconstruct (erased_zero_map 23) True False)) = 32 \<and>
   mset (elements (Reconstruct (erased_zero_map 23) True False))
     = mset (elements (erased_zero_map 23)) \<and>
   HashMap_size (Reconstruct (erased_zero_map 23) True False) = 32 \<and>
   LoadFactor (b_array (Reconstruct (erased_zero_map 23) True False)) \<le> 32 / 63"
proof -
  let ?m = "erased_zero_map 23"
  note d = shapeD[OF erased_23_shape]
  note r = shapeD[OF erased_23_Reconstruct]
  have tr: "LoadFactor (b_array ?m) > MAX_LOAD_FACTOR \<or> LoadFactor (b_array ?m) < MIN_LOAD_FACTOR"
    using erased_23_trigger by simp
  have c: "capacity (b_array ?m) = 64" using d(4) by (simp add: capacity_def NEXT_def)
  have sz: "HashMap_size ?m = 32" using d(10) by simp
  have len: "length (array (b_array (Reconstruct ?m True False))) = 63"
    using r(4) by (simp add: NEXT_def)
  note t = reconstruct_on_insert[OF reachable_erased_zero_map[of 23] tr]
  from t have 1: "load_checked ?m = Reconstruct ?m True False" by blast
  from t erased_23_trigger c
  have 2: "capacity (b_array (Reconstruct ?m True False)) = 32"
    by (simp add: INITIAL_SIZE_def)
  from t have 3: "mset (elements (Reconstruct ?m True False)) = mset (elements ?m)" by blast
  from t sz have 4: "HashMap_size (Reconstruct ?m True False) = 32" by simp
  from t have "LoadFactor (b_array (Reconstruct ?m True False)) \<le>
      of_nat (HashMap_size ?m) / of_nat (length (array (b_array (Reconstruct ?m True False))))"
    by blast
  then have 5: "LoadFactor (b_array (Reconstruct ?m True False)) \<le> 32 / 63"
    unfolding sz len by simp
  from reachable_erased_zero_map[of 23] erased_23_trigger c sz 1 2 3 4 5 show ?thesis
    by blast
qed

subsection \<open>C7\<close>

lemma crowded_map_array:
  "j < 32 \<Longrightarrow> array (b_array crowded_map) ! j = Bucket_of (64 * j, j)"
  "32 \<le> j \<Longrightarrow> j < 95 \<Longrightarrow> array (b_array crowded_map) ! j = Bucket_default"
  by (simp_all add: crowded_map_def nth_append)

lemma crowded_map_table_pairs:
  "table_pairs (b_array crowded_map) = map (\<lambda>k. (64 * k, k)) [0..<32]"
  by (simp add: table_pairs_def crowded_map_def filter_map comp_def Bucket_of_def
      Bucket_default_def)

lemma hm_inv_crowded_map: "hm_inv crowded_map"
proof -
  have 1: "hash_func (b_array crowded_map) = map_hash_func crowded_map"
    by (simp add: crowded_map_def)
  have len: "length (array (b_array crowded_map)) = 95"
    by (simp add: crowded_map_def)
  then have 2: "INITIAL_SIZE + NEXT - 1 \<le> length (array (b_array crowded_map))"
    by (simp add: INITIAL_SIZE_def NEXT_def)
  have 3: "placed (b_array crowded_map)"
    unfolding placed_def len
  proof (intro allI impI)
    fix j
    assume j: "j < 95" and occ: "is_occupied (array (b_array crowded_map) ! j)"
    have "j < 32"
    proof (rule ccontr)
      assume "\<not> j < 32"
      with j crowded_map_array(2)[of j] occ show False
        by (simp add: Bucket_default_def)
    qed
    then have "fst (pair (array (b_array crowded_map) ! j)) = 64 * j"
      by (simp add: crowded_map_array(1) Bucket_of_def)
    moreover have "GetIndex (b_array crowded_map) (64 * j) = 0"
      by (simp add: GetIndex_def len NEXT_def) (simp add: crowded_map_def)
    ultimately show "GetIndex (b_array crowded_map) (fst (pair (array (b_array crowded_map) ! j))) \<le> j \<and>
        j < GetIndex (b_array crowded_map) (fst (pair (array (b_array crowded_map) ! j))) + NEXT"
      using \<open>j < 32\<close> by (simp add: NEXT_def)
  qed
  have 4: "pairs_count (b_array crowded_map) = length (table_pairs (b_array crowded_map))"
    unfolding crowded_map_table_pairs by (simp add: crowded_map_def)
  have 5: "\<forall>x \<in> set (list crowded_map). is_occupied x"
    by (simp add: crowded_map_def)
  have 6: "distinct (map fst (elements crowded_map))"
    unfolding elements_def crowded_map_table_pairs
    by (simp add: crowded_map_def comp_def distinct_map inj_on_def)
  from 1 2 3 4 5 6 show ?thesis unfolding hm_inv_def by blast
qed

lemma crowded_map_insert_fails:
  "iter_eq (HashMap_find crowded_map 2048) (HashMap_end crowded_map) \<and>
   \<not> fst (fst (Insert (b_array (load_checked crowded_map)) (2048, 7))) \<and>
   length (list (load_checked crowded_map)) = 0"
  by code_simp

text \<open>
  C7. Whenever \<open>Insert\<close> on the table fails in \<open>ForceInsert\<close> (after the check of the load
  factor), in any state of the map, \<open>ForceInsert\<close> appends the pair to the overflow vector
  and returns the reference to this last bucket of the vector, which holds the pair;
  \<open>ForceInsert\<close> has no error result; and \<open>find\<close> of the key is not \<open>end()\<close> afterwards.
  In a state with the invariant of the reachable states (\<open>reachable_inv\<close>) where the key
  was absent, this is the map after \<open>insert\<close>, and \<open>at\<close> returns the inserted value.
\<close>

theorem overflow_routing:
  assumes "\<not> fst (fst (Insert (b_array (load_checked m)) p))"
  shows "list (snd (ForceInsert m p)) = list (load_checked m) @ [Bucket_of p] \<and>
         fst (ForceInsert m p) = InList (length (list (load_checked m))) \<and>
         ref_get (snd (ForceInsert m p)) (fst (ForceInsert m p)) = p \<and>
         \<not> iter_eq (HashMap_find (snd (ForceInsert m p)) (fst p))
               (HashMap_end (snd (ForceInsert m p))) \<and>
         (hm_inv m \<and> iter_eq (HashMap_find m (fst p)) (HashMap_end m) \<longrightarrow>
            HashMap_insert m p = snd (ForceInsert m p) \<and>
            HashMap_at (snd (ForceInsert m p)) (fst p) = Inr (snd p))"
proof -
  let ?m1 = "load_checked m"
  obtain ok r0 b' where ins: "Insert (b_array ?m1) p = ((ok, r0), b')"
    by (metis prod.exhaust)
  with assms have nok: "\<not> ok" by simp
  let ?m' = "?m1\<lparr>b_array := b', list := list ?m1 @ [Bucket_of p]\<rparr>"
  have fi: "ForceInsert m p = (InList (length (list ?m1)), ?m')"
    by (simp add: ForceInsert_load_checked ins nok)
  have 1: "list (snd (ForceInsert m p)) = list ?m1 @ [Bucket_of p]" by (simp add: fi)
  have 2: "fst (ForceInsert m p) = InList (length (list ?m1))" by (simp add: fi)
  have 3: "ref_get (snd (ForceInsert m p)) (fst (ForceInsert m p)) = p"
    by (simp add: fi ref_get_def GetRef_def Bucket_of_def)
  have 4: "\<not> iter_eq (HashMap_find ?m' (fst p)) (HashMap_end ?m')"
  proof (cases "Find (b_array ?m') (fst p) = End (b_array ?m')")
    case False
    then show ?thesis
      by (simp add: HashMap_find_def Let_def iter_eq_def HashMap_end_def)
  next
    case True
    let ?l = "list ?m1 @ [Bucket_of p]"
    let ?r = "list_find_loop ?l (fst p) 0"
    have last: "fst (pair (?l ! length (list ?m1))) = fst p"
      by (simp add: Bucket_of_def)
    from list_find_loop_spec[OF refl, of ?l "fst p" 0]
    have "?r \<noteq> length ?l"
    proof
      assume "?r = length ?l \<and> (\<forall>j. 0 \<le> j \<and> j < length ?l \<longrightarrow> fst (pair (?l ! j)) \<noteq> fst p)"
      then have "\<forall>j. 0 \<le> j \<and> j < length ?l \<longrightarrow> fst (pair (?l ! j)) \<noteq> fst p"
        by (rule conjunct2)
      then have "length (list ?m1) < length ?l \<longrightarrow>
                 fst (pair (?l ! length (list ?m1))) \<noteq> fst p" by blast
      with last show ?thesis by simp
    next
      assume "0 \<le> ?r \<and> ?r < length ?l \<and> fst (pair (?l ! ?r)) = fst p"
      then show ?thesis by simp
    qed
    moreover have "Find b' (fst p) = End b'" using True by simp
    ultimately show ?thesis
      by (simp add: HashMap_find_def Let_def iter_eq_def HashMap_end_def)
  qed
  have 5: "HashMap_insert m p = snd (ForceInsert m p) \<and>
           HashMap_at (snd (ForceInsert m p)) (fst p) = Inr (snd p)"
    if inv: "hm_inv m" and absent: "iter_eq (HashMap_find m (fst p)) (HashMap_end m)"
  proof -
    from absent have none: "lookup m (fst p) = None"
      by (simp add: HashMap_find_end_iff[OF inv])
    from ForceInsert_spec[OF inv none fi] ForceInsert_lookup[OF inv none fi]
    have "hm_inv ?m'" "lookup ?m' (fst p) = Some (snd p)" by simp_all
    then have "HashMap_at ?m' (fst p) = Inr (snd p)"
      by (simp add: HashMap_at_spec)
    moreover have "HashMap_insert m p = ?m'"
      using absent by (simp add: HashMap_insert_def fi)
    ultimately show ?thesis by (simp add: fi)
  qed
  from 1 2 3 4 5 show ?thesis unfolding fi snd_conv fst_conv by blast
qed

theorem overflow_routing_witness:
  "\<not> fst (fst (Insert (b_array (load_checked crowded_map)) (2048, 7))) \<and>
   hm_inv crowded_map \<and>
   iter_eq (HashMap_find crowded_map 2048) (HashMap_end crowded_map) \<and>
   fst (ForceInsert crowded_map (2048, 7)) = InList 0 \<and>
   ref_get (snd (ForceInsert crowded_map (2048, 7))) (InList 0) = (2048, 7) \<and>
   HashMap_insert crowded_map (2048, 7) = snd (ForceInsert crowded_map (2048, 7)) \<and>
   HashMap_at (HashMap_insert crowded_map (2048, 7)) 2048 = Inr 7"
proof -
  from crowded_map_insert_fails
  have f: "\<not> fst (fst (Insert (b_array (load_checked crowded_map)) (2048, 7)))"
    and a: "iter_eq (HashMap_find crowded_map 2048) (HashMap_end crowded_map)"
    and l: "length (list (load_checked crowded_map)) = 0"
    by blast+
  note t = overflow_routing[OF f]
  from t l have r: "fst (ForceInsert crowded_map (2048, 7)) = InList 0" by simp
  from t have "ref_get (snd (ForceInsert crowded_map (2048, 7)))
                 (fst (ForceInsert crowded_map (2048, 7))) = (2048, 7)" by blast
  then have g: "ref_get (snd (ForceInsert crowded_map (2048, 7))) (InList 0) = (2048, 7)"
    unfolding r .
  from t hm_inv_crowded_map a
  have i: "HashMap_insert crowded_map (2048, 7) = snd (ForceInsert crowded_map (2048, 7))"
    and v: "HashMap_at (snd (ForceInsert crowded_map (2048, 7))) 2048 = Inr 7"
    by simp_all
  from f hm_inv_crowded_map a r g i v show ?thesis by simp
qed

end
